theory Spec2Isabelle
  imports Complex_Main "HOL-Library.Word"
begin

unbundle bit_operations_syntax

section \<open>JavaScript numbers\<close>

text \<open>
  The dashboard computes with JavaScript numbers: IEEE 754 doubles, with the two
  infinities and NaN. A finite double is a rational number, so a number is modelled as
  \<open>Fin q\<close> for a rational \<open>q\<close>, or one of the three special values. Every arithmetic
  operation computes the exact rational result and rounds it to the nearest double
  (ties to even, overflow to an infinity), as IEEE 754 prescribes. The sign of zero is
  not modelled: no operation of the analytics core tells \<open>-0\<close> from \<open>0\<close>.
\<close>

datatype jsnum = Fin rat | PInf | NInf | NaN

fun ilog2 :: "nat \<Rightarrow> nat" where
  "ilog2 n = (if n < 2 then 0 else Suc (ilog2 (n div 2)))"

declare ilog2.simps [simp del]

definition pow2 :: "int \<Rightarrow> rat" where
  "pow2 e = (if 0 \<le> e then 2 ^ nat e else 1 / 2 ^ nat (- e))"

definition pow10 :: "int \<Rightarrow> rat" where
  "pow10 e = (if 0 \<le> e then 10 ^ nat e else 1 / 10 ^ nat (- e))"

definition floor_log2 :: "rat \<Rightarrow> int" where
  \<comment> \<open>for \<open>0 < q\<close>: the exponent \<open>e\<close> with \<open>2 ^ e \<le> q < 2 ^ (e + 1)\<close>\<close>
  "floor_log2 q =
     (let a = fst (quotient_of q); b = snd (quotient_of q);
          e0 = int (ilog2 (nat a)) - int (ilog2 (nat b))
      in if pow2 e0 \<le> q then e0 else e0 - 1)"

definition round_half_even :: "rat \<Rightarrow> int" where
  "round_half_even r =
     (let f = \<lfloor>r\<rfloor>; d = r - of_int f
      in if d < 1 / 2 then f else if 1 / 2 < d then f + 1
         else if even f then f else f + 1)"

definition fl_pos :: "rat \<Rightarrow> rat option" where
  \<comment> \<open>for \<open>0 < q\<close>: the nearest double (53 bits of mantissa, least exponent -1074),
      \<open>None\<close> when the rounded value is beyond the largest double\<close>
  "fl_pos q =
     (let e = max (floor_log2 q - 52) (- 1074);
          v = of_int (round_half_even (q / pow2 e)) * pow2 e
      in if 2 ^ 1024 \<le> v then None else Some v)"

definition fl :: "rat \<Rightarrow> jsnum" where
  "fl q =
     (if q = 0 then Fin 0
      else if 0 < q then (case fl_pos q of None \<Rightarrow> PInf | Some v \<Rightarrow> Fin v)
      else (case fl_pos (- q) of None \<Rightarrow> NInf | Some v \<Rightarrow> Fin (- v)))"

fun jneg :: "jsnum \<Rightarrow> jsnum" where
  "jneg (Fin a) = Fin (- a)"
| "jneg PInf = NInf"
| "jneg NInf = PInf"
| "jneg NaN = NaN"

fun jadd :: "jsnum \<Rightarrow> jsnum \<Rightarrow> jsnum" where
  "jadd NaN y = NaN"
| "jadd x NaN = NaN"
| "jadd (Fin a) (Fin b) = fl (a + b)"
| "jadd (Fin a) y = y"
| "jadd x (Fin b) = x"
| "jadd x y = (if x = y then x else NaN)"

definition jsub :: "jsnum \<Rightarrow> jsnum \<Rightarrow> jsnum" where
  "jsub x y = jadd x (jneg y)"

fun jmul :: "jsnum \<Rightarrow> jsnum \<Rightarrow> jsnum" where
  "jmul NaN y = NaN"
| "jmul x NaN = NaN"
| "jmul (Fin a) (Fin b) = fl (a * b)"
| "jmul (Fin a) y = (if a = 0 then NaN else if 0 < a then y else jneg y)"
| "jmul x (Fin b) = (if b = 0 then NaN else if 0 < b then x else jneg x)"
| "jmul x y = (if x = y then PInf else NInf)"

fun jdiv :: "jsnum \<Rightarrow> jsnum \<Rightarrow> jsnum" where
  "jdiv NaN y = NaN"
| "jdiv x NaN = NaN"
| "jdiv (Fin a) (Fin b) =
     (if b = 0 then (if a = 0 then NaN else if 0 < a then PInf else NInf)
      else fl (a / b))"
| "jdiv (Fin a) y = Fin 0"
| "jdiv x (Fin b) = (if 0 \<le> b then x else jneg x)"
| "jdiv x y = NaN"

text \<open>\<open>Number.isFinite\<close>, \<open>Math.floor\<close>, \<open>Math.round\<close>, \<open>Math.max\<close>, \<open>Math.min\<close>.\<close>

fun isFinite :: "jsnum \<Rightarrow> bool" where
  "isFinite (Fin a) = True"
| "isFinite x = False"

fun jfloor :: "jsnum \<Rightarrow> jsnum" where
  "jfloor (Fin a) = Fin (of_int \<lfloor>a\<rfloor>)"
| "jfloor x = x"

fun jround :: "jsnum \<Rightarrow> jsnum" where
  "jround (Fin a) = Fin (of_int \<lfloor>a + 1 / 2\<rfloor>)"
| "jround x = x"

fun jmax :: "jsnum \<Rightarrow> jsnum \<Rightarrow> jsnum" where
  "jmax NaN y = NaN"
| "jmax x NaN = NaN"
| "jmax PInf y = PInf"
| "jmax x PInf = PInf"
| "jmax NInf y = y"
| "jmax x NInf = x"
| "jmax (Fin a) (Fin b) = Fin (max a b)"

fun jmin :: "jsnum \<Rightarrow> jsnum \<Rightarrow> jsnum" where
  "jmin NaN y = NaN"
| "jmin x NaN = NaN"
| "jmin NInf y = NInf"
| "jmin x NInf = NInf"
| "jmin PInf y = y"
| "jmin x PInf = x"
| "jmin (Fin a) (Fin b) = Fin (min a b)"

text \<open>The comparisons \<open><\<close> and \<open><=\<close>; \<open>a > b\<close> is \<open>b < a\<close> and \<open>a >= b\<close> is
  \<open>b <= a\<close>. Every comparison with NaN is false.\<close>

fun jlt :: "jsnum \<Rightarrow> jsnum \<Rightarrow> bool" where
  "jlt NaN y = False"
| "jlt x NaN = False"
| "jlt (Fin a) (Fin b) = (a < b)"
| "jlt PInf y = False"
| "jlt x NInf = False"
| "jlt x y = True"

fun jle :: "jsnum \<Rightarrow> jsnum \<Rightarrow> bool" where
  "jle NaN y = False"
| "jle x NaN = False"
| "jle x y = (x = y \<or> jlt x y)"

text \<open>\<open>Math.max(0, ...xs)\<close>: the arguments are folded from the left.\<close>

definition jmax_list :: "jsnum list \<Rightarrow> jsnum" where
  "jmax_list xs = foldl jmax NInf xs"

section \<open>Strings and their conversion to numbers\<close>

text \<open>
  A \<open>char\<close> stands for a UTF-16 code unit below 256. \<open>StringToNumber\<close> is the
  conversion \<open>Number(s)\<close> applies to a string: white space is trimmed, the empty string
  is 0, then come the infinities, the hexadecimal, octal and binary literals, and the
  signed decimal literals with an optional fraction and exponent; anything else is NaN.
\<close>

definition isWhite :: "char \<Rightarrow> bool" where
  "isWhite c = ((of_char c :: nat) \<in> {9, 10, 11, 12, 13, 32, 160})"

definition trimJs :: "string \<Rightarrow> string" where
  "trimJs s = rev (dropWhile isWhite (rev (dropWhile isWhite s)))"

definition isDigit :: "char \<Rightarrow> bool" where
  "isDigit c = (48 \<le> (of_char c :: nat) \<and> (of_char c :: nat) \<le> 57)"

definition isHexDigit :: "char \<Rightarrow> bool" where
  "isHexDigit c =
     (isDigit c \<or> 97 \<le> (of_char c :: nat) \<and> (of_char c :: nat) \<le> 102
                \<or> 65 \<le> (of_char c :: nat) \<and> (of_char c :: nat) \<le> 70)"

definition isOctDigit :: "char \<Rightarrow> bool" where
  "isOctDigit c = (48 \<le> (of_char c :: nat) \<and> (of_char c :: nat) \<le> 55)"

definition isBinDigit :: "char \<Rightarrow> bool" where
  "isBinDigit c = (c = CHR ''0'' \<or> c = CHR ''1'')"

definition digitVal :: "char \<Rightarrow> nat" where
  "digitVal c =
     (let n = (of_char c :: nat)
      in if 48 \<le> n \<and> n \<le> 57 then n - 48
         else if 97 \<le> n \<and> n \<le> 102 then n - 87
         else if 65 \<le> n \<and> n \<le> 70 then n - 55 else 0)"

definition natOfDigits :: "nat \<Rightarrow> string \<Rightarrow> nat" where
  "natOfDigits base ds = foldl (\<lambda>a c. a * base + digitVal c) 0 ds"

definition radixLiteral :: "nat \<Rightarrow> (char \<Rightarrow> bool) \<Rightarrow> string \<Rightarrow> jsnum" where
  "radixLiteral base ok ds =
     (if ds \<noteq> [] \<and> list_all ok ds then fl (of_nat (natOfDigits base ds)) else NaN)"

definition exponentPart :: "string \<Rightarrow> int option" where
  "exponentPart s =
     (case s of
        [] \<Rightarrow> Some 0
      | c # t \<Rightarrow>
          if c = CHR ''e'' \<or> c = CHR ''E'' then
            (let neg = (take 1 t = ''-'');
                 ds = (if take 1 t = ''-'' \<or> take 1 t = ''+'' then drop 1 t else t)
             in if ds \<noteq> [] \<and> list_all isDigit ds
                then Some (if neg then - int (natOfDigits 10 ds) else int (natOfDigits 10 ds))
                else None)
          else None)"

definition decimalLiteral :: "string \<Rightarrow> rat option" where
  "decimalLiteral s =
     (let ip = takeWhile isDigit s;
          r1 = dropWhile isDigit s;
          dot = (take 1 r1 = ''.'');
          fp = (if dot then takeWhile isDigit (drop 1 r1) else []);
          r2 = (if dot then dropWhile isDigit (drop 1 r1) else r1)
      in if ip = [] \<and> fp = [] then None
         else (case exponentPart r2 of
                 None \<Rightarrow> None
               | Some ex \<Rightarrow>
                   Some (of_nat (natOfDigits 10 (ip @ fp)) * pow10 (ex - int (length fp)))))"

definition StringToNumber :: "string \<Rightarrow> jsnum" where
  "StringToNumber str =
     (let s = trimJs str
      in if s = [] then Fin 0
         else if s = ''Infinity'' \<or> s = ''+Infinity'' then PInf
         else if s = ''-Infinity'' then NInf
         else if take 2 s = ''0x'' \<or> take 2 s = ''0X'' then radixLiteral 16 isHexDigit (drop 2 s)
         else if take 2 s = ''0o'' \<or> take 2 s = ''0O'' then radixLiteral 8 isOctDigit (drop 2 s)
         else if take 2 s = ''0b'' \<or> take 2 s = ''0B'' then radixLiteral 2 isBinDigit (drop 2 s)
         else if take 1 s = ''-'' then
           (case decimalLiteral (drop 1 s) of None \<Rightarrow> NaN | Some q \<Rightarrow> fl (- q))
         else if take 1 s = ''+'' then
           (case decimalLiteral (drop 1 s) of None \<Rightarrow> NaN | Some q \<Rightarrow> fl q)
         else (case decimalLiteral s of None \<Rightarrow> NaN | Some q \<Rightarrow> fl q))"

text \<open>\<open>s.split(c)\<close> for a one-character separator: the empty string gives one empty part.\<close>

fun split_on :: "char \<Rightarrow> string \<Rightarrow> string list" where
  "split_on c [] = [[]]"
| "split_on c (x # xs) =
     (if x = c then [] # split_on c xs
      else (case split_on c xs of [] \<Rightarrow> [[x]] | p # ps \<Rightarrow> (x # p) # ps))"

text \<open>\<open>String(n)\<close> for a non-negative integer below \<open>10^21\<close> (its decimal digits), and
  \<open>s.padStart(w, "0")\<close>.\<close>

fun showNat :: "nat \<Rightarrow> string" where
  "showNat n =
     (if n < 10 then [char_of (48 + n)] else showNat (n div 10) @ [char_of (48 + n mod 10)])"

declare showNat.simps [simp del]

definition padStart0 :: "nat \<Rightarrow> string \<Rightarrow> string" where
  "padStart0 w s = replicate (w - length s) CHR ''0'' @ s"

section \<open>The helpers of the dashboard\<close>

definition clamp :: "jsnum \<Rightarrow> jsnum \<Rightarrow> jsnum \<Rightarrow> jsnum" where
  "clamp n lo hi = jmin hi (jmax lo n)"

definition toMinLabel :: "nat \<Rightarrow> string" where
  "toMinLabel idx = ''00:'' @ padStart0 2 (showNat idx)"

definition hmsToSeconds :: "string \<Rightarrow> jsnum" where
  "hmsToSeconds hms =
     (case map StringToNumber (split_on CHR '':'' hms) of
        [h, m, s] \<Rightarrow>
          if \<not> isFinite h \<or> \<not> isFinite m \<or> \<not> isFinite s then Fin 0
          else jmax (Fin 0) (jfloor (jadd (jadd (jmul h (Fin 3600)) (jmul m (Fin 60))) s))
      | _ \<Rightarrow> Fin 0)"

section \<open>Events and minute buckets\<close>

datatype PizzaSize = Small | Medium | Large | XL

text \<open>The fields \<open>id\<close> and \<open>size\<close> of the source are \<open>id_ev\<close> and \<open>size_ev\<close> here.\<close>

record DetectionEvent =
  id_ev :: string
  time :: string
  size_ev :: PizzaSize
  confidence :: jsnum
  source :: string
  timestamp :: "string option"

text \<open>The per-category counters \<open>Small\<close>, \<open>Medium\<close>, \<open>Large\<close>, \<open>XL\<close> of a bucket are
  \<open>nSmall\<close>, \<open>nMedium\<close>, \<open>nLarge\<close>, \<open>nXL\<close>. A counter starts at 0 and only ever has 1
  added, so it is a natural number.\<close>

record MinutePoint =
  minute :: string
  total :: nat
  nSmall :: nat
  nMedium :: nat
  nLarge :: nat
  nXL :: nat

definition emptyBuckets :: "nat \<Rightarrow> MinutePoint list" where
  "emptyBuckets mins =
     map (\<lambda>i. \<lparr>minute = toMinLabel i, total = 0, nSmall = 0, nMedium = 0, nLarge = 0, nXL = 0\<rparr>)
       [0..<mins]"

text \<open>\<open>xs[n]\<close> for a number \<open>n\<close>: an element when \<open>n\<close> is a non-negative integer below the
  length, \<open>undefined\<close> (here \<open>None\<close>) otherwise, in particular when \<open>n\<close> is NaN.\<close>

definition arrayIndex :: "jsnum \<Rightarrow> nat option" where
  "arrayIndex n =
     (case n of
        Fin q \<Rightarrow> if 0 \<le> q \<and> of_int \<lfloor>q\<rfloor> = q then Some (nat \<lfloor>q\<rfloor>) else None
      | _ \<Rightarrow> None)"

definition bucketIndex :: "nat \<Rightarrow> DetectionEvent \<Rightarrow> nat option" where
  "bucketIndex mins e =
     (let sec = hmsToSeconds (time e);
          minIdx = clamp (jfloor (jdiv sec (Fin 60))) (Fin 0) (Fin (of_nat mins - 1))
      in case arrayIndex minIdx of
           Some i \<Rightarrow> if i < mins then Some i else None
         | None \<Rightarrow> None)"

fun bump :: "PizzaSize \<Rightarrow> MinutePoint \<Rightarrow> MinutePoint" where
  "bump Small b = b\<lparr>total := total b + 1, nSmall := nSmall b + 1\<rparr>"
| "bump Medium b = b\<lparr>total := total b + 1, nMedium := nMedium b + 1\<rparr>"
| "bump Large b = b\<lparr>total := total b + 1, nLarge := nLarge b + 1\<rparr>"
| "bump XL b = b\<lparr>total := total b + 1, nXL := nXL b + 1\<rparr>"

text \<open>One turn of the loop over the events: \<open>if (!b) continue\<close> leaves the buckets as
  they are when the index names no bucket.\<close>

definition addEvent :: "MinutePoint list \<Rightarrow> DetectionEvent \<Rightarrow> MinutePoint list" where
  "addEvent buckets e =
     (case bucketIndex (length buckets) e of
        None \<Rightarrow> buckets
      | Some i \<Rightarrow> buckets[i := bump (size_ev e) (buckets ! i)])"

definition minuteData :: "DetectionEvent list \<Rightarrow> MinutePoint list" where
  "minuteData events = foldl addEvent (emptyBuckets 60) events"

record Totals =
  sum_total :: nat
  sum_Small :: nat
  sum_Medium :: nat
  sum_Large :: nat
  sum_XL :: nat

definition totals :: "MinutePoint list \<Rightarrow> Totals" where
  "totals data =
     foldl (\<lambda>base p. \<lparr>sum_total = sum_total base + total p, sum_Small = sum_Small base + nSmall p,
                       sum_Medium = sum_Medium base + nMedium p, sum_Large = sum_Large base + nLarge p,
                       sum_XL = sum_XL base + nXL p\<rparr>)
       \<lparr>sum_total = 0, sum_Small = 0, sum_Medium = 0, sum_Large = 0, sum_XL = 0\<rparr> data"

section \<open>The busiest ten minutes\<close>








section \<open>The synthetic events\<close>

text \<open>
  \<open>Math.imul\<close> and the bitwise operators work on 32-bit integers, here \<open>32 word\<close>. The
  state \<open>t\<close> of \<open>mulberry32\<close> is a number that only ever has \<open>0x6D2B79F5\<close> added: an
  integer, exact as a double below \<open>2^53\<close> (some four million draws from a 32-bit seed;
  the dashboard makes 440), so it is a natural number here. A draw is a 32-bit integer
  divided by \<open>2^32\<close>, which is exact.
\<close>

definition imul :: "32 word \<Rightarrow> 32 word \<Rightarrow> 32 word" where
  "imul a b = a * b"

definition mulberry32 :: "nat \<Rightarrow> nat \<times> jsnum" where
  \<comment> \<open>one call of the closure: the new state and the number returned\<close>
  "mulberry32 t =
     (let t' = t + 0x6D2B79F5;
          x0 = (word_of_nat t' :: 32 word);
          x1 = imul (x0 XOR drop_bit 15 x0) (x0 OR 1);
          x2 = x1 XOR (x1 + imul (x1 XOR drop_bit 7 x1) (x1 OR 61))
      in (t', Fin (of_nat (unat (x2 XOR drop_bit 14 x2)) / 4294967296)))"

definition seedFromString :: "string \<Rightarrow> nat" where
  "seedFromString s =
     unat (foldl (\<lambda>h c. imul (h XOR word_of_nat (of_char c)) 16777619) (2166136261 :: 32 word) s)"

text \<open>\<open>toHms\<close> on a whole number of seconds, the only argument the event generator has
  for it: there the divisions and remainders of the source are exact.\<close>

definition toHms :: "nat \<Rightarrow> string" where
  "toHms s =
     padStart0 2 (showNat (s div 3600)) @ '':'' @ padStart0 2 (showNat (s mod 3600 div 60))
       @ '':'' @ padStart0 2 (showNat (s mod 60))"

definition natOfNum :: "jsnum \<Rightarrow> nat" where
  "natOfNum x = (case x of Fin q \<Rightarrow> nat \<lfloor>q\<rfloor> | _ \<Rightarrow> 0)"

definition sizes :: "PizzaSize list" where
  "sizes = [Small, Medium, Large, XL]"

definition weights :: "jsnum list" where
  "weights = [fl (22 / 100), fl (38 / 100), fl (31 / 100), fl (9 / 100)]"

text \<open>The inner loop over the categories: the first whose accumulated weight reaches the
  draw, \<open>Medium\<close> when none does.\<close>

fun pickLoop :: "jsnum \<Rightarrow> jsnum \<Rightarrow> (PizzaSize \<times> jsnum) list \<Rightarrow> PizzaSize" where
  "pickLoop r acc [] = Medium"
| "pickLoop r acc ((s, w) # rest) =
     (if jle r (jadd acc w) then s else pickLoop r (jadd acc w) rest)"

definition pickSize :: "jsnum \<Rightarrow> PizzaSize" where
  "pickSize r = pickLoop r (Fin 0) (zip sizes weights)"

definition drawConfidence :: "jsnum \<Rightarrow> jsnum" where
  "drawConfidence r =
     (let confidence = clamp (jadd (fl (72 / 100)) (jmul r (fl (27 / 100)))) (Fin 0) (Fin 1)
      in jdiv (jround (jmul confidence (Fin 1000))) (Fin 1000))"

definition eventId :: "nat \<Rightarrow> string" where
  "eventId i = ''EVT-'' @ padStart0 4 (showNat (i + 1))"

definition eventOffset :: "nat \<Rightarrow> nat \<Rightarrow> jsnum" where
  "eventOffset totalEvents i =
     jfloor (jmul (jdiv (Fin (of_nat i)) (Fin (of_nat totalEvents))) (Fin 3600))"

function genEvents :: "nat \<Rightarrow> nat \<Rightarrow> nat \<Rightarrow> DetectionEvent list \<Rightarrow> DetectionEvent list" where
  "genEvents totalEvents i rng out =
     (if i < totalEvents then
        (let t = eventOffset totalEvents i;
             d1 = mulberry32 rng;
             pick = pickSize (snd d1);
             d2 = mulberry32 (fst d1);
             e = \<lparr>id_ev = eventId i, time = toHms (natOfNum t), size_ev = pick,
                  confidence = drawConfidence (snd d2), source = ''Cutting Table 1'',
                  timestamp = None\<rparr>
         in genEvents totalEvents (i + 1) (fst d2) (out @ [e]))
      else out)"
  by pat_completeness auto
termination
  by (relation "measure (\<lambda>(totalEvents, i, rng, out). totalEvents - i)") auto

declare genEvents.simps [simp del]

definition syntheticEvents :: "string \<Rightarrow> DetectionEvent list" where
  "syntheticEvents seed = genEvents 220 0 (seedFromString seed) []"

text \<open>
  The state of the generator after \<open>k\<close> calls, the number call \<open>k\<close> returns (counted from
  0), and the event the loop body builds at index \<open>i\<close> from the state \<open>rng\<close> it finds.
\<close>

fun rngState :: "nat \<Rightarrow> nat \<Rightarrow> nat" where
  "rngState t 0 = t"
| "rngState t (Suc k) = rngState (fst (mulberry32 t)) k"

definition draw :: "nat \<Rightarrow> nat \<Rightarrow> jsnum" where
  "draw seed k = snd (mulberry32 (rngState seed k))"

definition loopEvent :: "nat \<Rightarrow> nat \<Rightarrow> nat \<Rightarrow> DetectionEvent" where
  "loopEvent totalEvents i rng =
     \<lparr>id_ev = eventId i, time = toHms (natOfNum (eventOffset totalEvents i)),
      size_ev = pickSize (snd (mulberry32 rng)),
      confidence = drawConfidence (snd (mulberry32 (fst (mulberry32 rng)))),
      source = ''Cutting Table 1'', timestamp = None\<rparr>"

section \<open>The state of the dashboard and the derived lists\<close>

datatype TimeRangeKey = Range_all | Range_5m | Range_10m | Range_30m | Range_60m

datatype SizeFilter = AllSizes | Only PizzaSize

record Dashboard =
  completed :: bool
  eventsFromFile :: "DetectionEvent list option"
  videoName :: string
  dateTimeFrom :: "string option"
  dateTimeTo :: "string option"
  timeRange :: TimeRangeKey
  eventConfidenceMin :: jsnum
  eventSizeFilter :: SizeFilter

definition baseEvents :: "Dashboard \<Rightarrow> DetectionEvent list" where
  "baseEvents st =
     (if \<not> completed st then []
      else (case eventsFromFile st of
              Some evs \<Rightarrow>
                if evs \<noteq> [] then evs
                else syntheticEvents ((if videoName st = [] then ''demo'' else videoName st) @ '':events'')
            | None \<Rightarrow>
                syntheticEvents ((if videoName st = [] then ''demo'' else videoName st) @ '':events'')))"

text \<open>
  \<open>Date.parse\<close> belongs to the platform; it is the parameter \<open>dateParse\<close>, a function from
  strings to numbers that gives NaN for a string it cannot read.
\<close>

definition parseDateTimeMs :: "(string \<Rightarrow> jsnum) \<Rightarrow> string option \<Rightarrow> jsnum option" where
  "parseDateTimeMs dateParse v =
     (case v of
        None \<Rightarrow> None
      | Some s \<Rightarrow> if \<not> isFinite (dateParse s) then None else Some (dateParse s))"

definition truthy :: "string option \<Rightarrow> bool" where
  "truthy v = (case v of None \<Rightarrow> False | Some s \<Rightarrow> s \<noteq> [])"

definition minutesOf :: "TimeRangeKey \<Rightarrow> rat" where
  "minutesOf r = (if r = Range_5m then 5 else if r = Range_10m then 10 else if r = Range_30m then 30 else 60)"

definition absoluteKeep ::
  "(string \<Rightarrow> jsnum) \<Rightarrow> jsnum option \<Rightarrow> jsnum option \<Rightarrow> DetectionEvent \<Rightarrow> bool" where
  "absoluteKeep dateParse fromMs toMs e =
     (case parseDateTimeMs dateParse (timestamp e) of
        None \<Rightarrow> False
      | Some ms \<Rightarrow>
          if (case fromMs of Some f \<Rightarrow> jlt ms f | None \<Rightarrow> False) then False
          else if (case toMs of Some t \<Rightarrow> jlt t ms | None \<Rightarrow> False) then False
          else True)"

text \<open>The constants \<open>maxSec\<close> and \<open>minSec\<close> of the relative mode.\<close>

definition maxSec :: "Dashboard \<Rightarrow> jsnum" where
  "maxSec st = jmax_list (Fin 0 # map (\<lambda>e. hmsToSeconds (time e)) (baseEvents st))"

definition minSec :: "Dashboard \<Rightarrow> jsnum" where
  "minSec st = jmax (Fin 0) (jsub (maxSec st) (Fin (minutesOf (timeRange st) * 60)))"

definition timeFilteredEvents :: "(string \<Rightarrow> jsnum) \<Rightarrow> Dashboard \<Rightarrow> DetectionEvent list" where
  "timeFilteredEvents dateParse st =
     (if \<not> completed st then []
      else if truthy (dateTimeFrom st) \<or> truthy (dateTimeTo st) then
        filter (absoluteKeep dateParse (parseDateTimeMs dateParse (dateTimeFrom st))
                  (parseDateTimeMs dateParse (dateTimeTo st)))
          (baseEvents st)
      else if timeRange st = Range_all then baseEvents st
      else if baseEvents st = [] then []
      else filter (\<lambda>e. jle (minSec st) (hmsToSeconds (time e)) \<and> jle (hmsToSeconds (time e)) (maxSec st))
             (baseEvents st))"

definition filteredEvents :: "(string \<Rightarrow> jsnum) \<Rightarrow> Dashboard \<Rightarrow> DetectionEvent list" where
  "filteredEvents dateParse st =
     filter (\<lambda>e. case eventSizeFilter st of AllSizes \<Rightarrow> True | Only s \<Rightarrow> size_ev e = s)
       (filter (\<lambda>e. jle (eventConfidenceMin st) (confidence e)) (timeFilteredEvents dateParse st))"

section \<open>Loading the event feed\<close>

text \<open>
  A record of the feed is any JSON value. \<open>getProp e k\<close> is \<open>e?.k\<close>, with \<open>None\<close> for
  \<open>undefined\<close>: only an object has the properties the loader reads. \<open>String(v)\<close> and
  \<open>Number(v)\<close> convert as JavaScript does: an array converts through the strings of its
  elements joined by commas, an object gives \<open>[object Object]\<close>, and the conversion
  throws a TypeError when it meets an object with a property \<open>toString\<close> of its own
  (which, coming from JSON, is not a function). \<open>String\<close> of a number belongs to the
  platform; it is the parameter \<open>numToString\<close>.
\<close>

datatype json = JNull | JBool bool | JNum jsnum | JStr string | JArr "json list"
  | JObj "(string \<times> json) list"

datatype error = TypeError

datatype fetched = FetchFailed | NotOk | BodyNotJson | Body json

fun getProp :: "json \<Rightarrow> string \<Rightarrow> json option" where
  "getProp (JObj kvs) k = map_of kvs k"
| "getProp v k = None"

fun truthyJ :: "json option \<Rightarrow> bool" where
  "truthyJ None = False"
| "truthyJ (Some JNull) = False"
| "truthyJ (Some (JBool b)) = b"
| "truthyJ (Some (JNum n)) = (n \<noteq> Fin 0 \<and> n \<noteq> NaN)"
| "truthyJ (Some (JStr s)) = (s \<noteq> [])"
| "truthyJ (Some (JArr xs)) = True"
| "truthyJ (Some (JObj kvs)) = True"

text \<open>\<open>v || d\<close> and \<open>a ?? b ?? c\<close>.\<close>

definition orElse :: "json option \<Rightarrow> json \<Rightarrow> json" where
  "orElse v d = (case v of Some x \<Rightarrow> if truthyJ v then x else d | None \<Rightarrow> d)"

fun firstNonNullish :: "json option list \<Rightarrow> json option" where
  "firstNonNullish [] = None"
| "firstNonNullish (None # vs) = firstNonNullish vs"
| "firstNonNullish (Some JNull # vs) = firstNonNullish vs"
| "firstNonNullish (Some v # vs) = Some v"

fun joinWith :: "string \<Rightarrow> string list \<Rightarrow> string" where
  "joinWith sep [] = []"
| "joinWith sep [x] = x"
| "joinWith sep (x # y # ys) = x @ sep @ joinWith sep (y # ys)"

fun convertible :: "json \<Rightarrow> bool" where
  "convertible (JObj kvs) = (map_of kvs ''toString'' = None)"
| "convertible (JArr xs) = list_all convertible xs"
| "convertible v = True"

fun toStr :: "(jsnum \<Rightarrow> string) \<Rightarrow> json \<Rightarrow> string" where
  "toStr numToString JNull = ''null''"
| "toStr numToString (JBool b) = (if b then ''true'' else ''false'')"
| "toStr numToString (JNum n) = numToString n"
| "toStr numToString (JStr s) = s"
| "toStr numToString (JArr xs) =
     joinWith '','' (map (\<lambda>x. if x = JNull then [] else toStr numToString x) xs)"
| "toStr numToString (JObj kvs) = ''[object Object]''"

definition jsString :: "(jsnum \<Rightarrow> string) \<Rightarrow> json \<Rightarrow> error + string" where
  "jsString numToString v = (if convertible v then Inr (toStr numToString v) else Inl TypeError)"

fun jsNumber :: "(jsnum \<Rightarrow> string) \<Rightarrow> json option \<Rightarrow> error + jsnum" where
  "jsNumber numToString None = Inr NaN"
| "jsNumber numToString (Some JNull) = Inr (Fin 0)"
| "jsNumber numToString (Some (JBool b)) = Inr (Fin (if b then 1 else 0))"
| "jsNumber numToString (Some (JNum n)) = Inr n"
| "jsNumber numToString (Some (JStr s)) = Inr (StringToNumber s)"
| "jsNumber numToString (Some (JArr xs)) =
     (if convertible (JArr xs) then Inr (StringToNumber (toStr numToString (JArr xs)))
      else Inl TypeError)"
| "jsNumber numToString (Some (JObj kvs)) =
     (if convertible (JObj kvs) then Inr NaN else Inl TypeError)"

definition sizeOfString :: "string \<Rightarrow> PizzaSize option" where
  "sizeOfString s =
     (if s = ''Small'' then Some Small else if s = ''Medium'' then Some Medium
      else if s = ''Large'' then Some Large else if s = ''XL'' then Some XL else None)"

text \<open>The optional absolute timestamp: \<open>None\<close> is \<open>undefined\<close>.\<close>

definition readTimestamp :: "(jsnum \<Rightarrow> string) \<Rightarrow> json \<Rightarrow> error + string option" where
  "readTimestamp numToString e =
     (case firstNonNullish [getProp e ''timestamp'', getProp e ''datetime'', getProp e ''dateTime''] of
        None \<Rightarrow> Inr None
      | Some v \<Rightarrow> (case jsString numToString v of Inl err \<Rightarrow> Inl err | Inr s \<Rightarrow> Inr (Some s)))"

text \<open>
  The function mapped over the raw records: \<open>Inr None\<close> is the \<open>null\<close> it returns for a
  record to drop, \<open>Inl TypeError\<close> an exception that leaves the whole \<open>map\<close>.
\<close>

definition validateRecord ::
  "(jsnum \<Rightarrow> string) \<Rightarrow> nat \<Rightarrow> json \<Rightarrow> error + DetectionEvent option" where
  "validateRecord numToString idx e =
     (case jsString numToString (orElse (getProp e ''size'') (JStr [])) of
        Inl err \<Rightarrow> Inl err
      | Inr size' \<Rightarrow>
     (case sizeOfString size' of
        None \<Rightarrow> Inr None
      | Some sz \<Rightarrow>
     (case jsString numToString (orElse (getProp e ''time'') (JStr ''00:00:00'')) of
        Inl err \<Rightarrow> Inl err
      | Inr time' \<Rightarrow>
     (case jsNumber numToString (getProp e ''confidence'') of
        Inl err \<Rightarrow> Inl err
      | Inr confidence' \<Rightarrow>
     (case jsString numToString (orElse (getProp e ''source'') (JStr ''Cutting Table 1'')) of
        Inl err \<Rightarrow> Inl err
      | Inr source' \<Rightarrow>
     (case jsString numToString (orElse (getProp e ''id'') (JStr (eventId idx))) of
        Inl err \<Rightarrow> Inl err
      | Inr id' \<Rightarrow>
     (case readTimestamp numToString e of
        Inl err \<Rightarrow> Inl err
      | Inr timestamp' \<Rightarrow>
          Inr (Some \<lparr>id_ev = id', time = time', size_ev = sz,
                     confidence = (if isFinite confidence' then confidence' else fl (9 / 10)),
                     source = source',
                     timestamp = (case timestamp' of
                                    Some ts \<Rightarrow> if ts \<noteq> [] then Some ts else None
                                  | None \<Rightarrow> None)\<rparr>))))))))"

fun mapRecords :: "(jsnum \<Rightarrow> string) \<Rightarrow> nat \<Rightarrow> json list \<Rightarrow> error + DetectionEvent option list" where
  "mapRecords numToString idx [] = Inr []"
| "mapRecords numToString idx (e # es) =
     (case validateRecord numToString idx e of
        Inl err \<Rightarrow> Inl err
      | Inr r \<Rightarrow>
          (case mapRecords numToString (idx + 1) es of
             Inl err \<Rightarrow> Inl err
           | Inr rs \<Rightarrow> Inr (r # rs)))"

definition rawEvents :: "json \<Rightarrow> json list" where
  "rawEvents j =
     (case j of
        JObj kvs \<Rightarrow> (case map_of kvs ''events'' of Some (JArr xs) \<Rightarrow> xs | _ \<Rightarrow> [])
      | _ \<Rightarrow> [])"

text \<open>\<open>load\<close>: the value it stores in \<open>eventsFromFile\<close>, \<open>None\<close> for \<open>null\<close>.\<close>

definition load :: "(jsnum \<Rightarrow> string) \<Rightarrow> fetched \<Rightarrow> DetectionEvent list option" where
  "load numToString res =
     (case res of
        Body j \<Rightarrow>
          (case mapRecords numToString 0 (rawEvents j) of
             Inl err \<Rightarrow> None
           | Inr rs \<Rightarrow>
               (let next = concat (map (\<lambda>r. case r of Some ev \<Rightarrow> [ev] | None \<Rightarrow> []) rs)
                in if next \<noteq> [] then Some next else None))
      | _ \<Rightarrow> None)"

section \<open>The CSV export\<close>

definition sizeName :: "PizzaSize \<Rightarrow> string" where
  "sizeName s = (case s of Small \<Rightarrow> ''Small'' | Medium \<Rightarrow> ''Medium'' | Large \<Rightarrow> ''Large'' | XL \<Rightarrow> ''XL'')"

text \<open>The double quote is the character \<open>0x22\<close>, the line feed \<open>0x0A\<close>.\<close>

definition dquote :: char where
  "dquote = CHR 0x22"

definition newline :: char where
  "newline = CHR 0x0A"

definition doubleQuotes :: "string \<Rightarrow> string" where
  \<comment> \<open>\<open>x.replaceAll('"', '""')\<close>\<close>
  "doubleQuotes x = concat (map (\<lambda>c. if c = dquote then [dquote, dquote] else [c]) x)"

definition quoteField :: "string \<Rightarrow> string" where
  "quoteField x = dquote # doubleQuotes x @ [dquote]"

definition csvHeader :: "string list" where
  "csvHeader = [''time'', ''size'', ''confidence'', ''source'', ''id'']"

definition csvFields :: "(jsnum \<Rightarrow> string) \<Rightarrow> DetectionEvent \<Rightarrow> string list" where
  "csvFields numToString r =
     [time r, sizeName (size_ev r), numToString (confidence r), source r, id_ev r]"

definition csvLines :: "(jsnum \<Rightarrow> string) \<Rightarrow> DetectionEvent list \<Rightarrow> string list" where
  "csvLines numToString rows =
     joinWith '','' csvHeader # map (\<lambda>r. joinWith '','' (map quoteField (csvFields numToString r))) rows"

definition downloadCsv :: "(jsnum \<Rightarrow> string) \<Rightarrow> (string \<Rightarrow> jsnum) \<Rightarrow> Dashboard \<Rightarrow> string" where
  \<comment> \<open>the text of the blob\<close>
  "downloadCsv numToString dateParse st =
     joinWith [newline] (csvLines numToString (filteredEvents dateParse st))"

text \<open>
  Reading CSV back, as RFC 4180 describes it: fields are separated by commas and records
  by line feeds; a field that starts with a double quote runs to the next double quote
  that is not doubled, and a doubled one stands for one double quote. \<open>csvParse\<close> takes
  the state of the reader, the field and the record read so far (both reversed) and the
  rest of the text.
\<close>

datatype csvState = FieldStart | Unquoted | Quoted | QuoteSeen

fun csvParse :: "csvState \<Rightarrow> string \<Rightarrow> string list \<Rightarrow> string \<Rightarrow> string list list" where
  "csvParse st field row [] = [rev (rev field # row)]"
| "csvParse st field row (c # cs) =
     (if st = Quoted then
        (if c = dquote then csvParse QuoteSeen field row cs
         else csvParse Quoted (c # field) row cs)
      else if c = CHR '','' then csvParse FieldStart [] (rev field # row) cs
      else if c = newline then rev (rev field # row) # csvParse FieldStart [] [] cs
      else if c = dquote then
        (if st = FieldStart then csvParse Quoted field row cs
         else if st = QuoteSeen then csvParse Quoted (c # field) row cs
         else csvParse Unquoted (c # field) row cs)
      else csvParse Unquoted (c # field) row cs)"

definition parseCsv :: "string \<Rightarrow> string list list" where
  "parseCsv text = csvParse FieldStart [] [] text"

section \<open>Sample data\<close>

definition sampleEvent :: "string \<Rightarrow> string \<Rightarrow> PizzaSize \<Rightarrow> DetectionEvent" where
  "sampleEvent i t s =
     \<lparr>id_ev = i, time = t, size_ev = s, confidence = fl (9 / 10), source = ''Cutting Table 1'',
      timestamp = None\<rparr>"

definition sampleEvents :: "DetectionEvent list" where
  "sampleEvents =
     [sampleEvent ''EVT-0001'' ''00:01:00'' Small, sampleEvent ''EVT-0002'' ''00:01:30'' XL,
      sampleEvent ''EVT-0003'' ''abc'' Large, sampleEvent ''EVT-0004'' ''99:00:00'' Medium]"


definition overflowEvent :: DetectionEvent where
  "overflowEvent = sampleEvent ''EVT-0002'' ''5e307:-5e307:0'' Small"

definition sampleDashboard :: "DetectionEvent list \<Rightarrow> Dashboard" where
  "sampleDashboard evs =
     \<lparr>completed = True, eventsFromFile = Some evs, videoName = ''cutting-table.mp4'',
      dateTimeFrom = None, dateTimeTo = None, timeRange = Range_all,
      eventConfidenceMin = fl (7 / 10), eventSizeFilter = AllSizes\<rparr>"

text \<open>A stand-in for \<open>Date.parse\<close> that reads four instants and nothing else.\<close>

definition sampleDateParse :: "string \<Rightarrow> jsnum" where
  "sampleDateParse s =
     (case map_of [(''2024-01-01T10:00:00Z'', 1704103200000), (''2024-01-01T10:01:00Z'', 1704103260000),
                   (''2024-01-01T10:05:00Z'', 1704103500000), (''2024-01-01T10:10:00Z'', 1704103800000)] s of
        Some ms \<Rightarrow> Fin ms
      | None \<Rightarrow> NaN)"

definition stampedEvent :: "string \<Rightarrow> string \<Rightarrow> string option \<Rightarrow> DetectionEvent" where
  "stampedEvent i t ts = (sampleEvent i t Medium)\<lparr>timestamp := ts\<rparr>"

definition specExample :: Dashboard where
  "specExample =
     (sampleDashboard
        [stampedEvent ''EVT-0001'' ''00:00:00'' (Some ''2024-01-01T10:00:00Z''),
         stampedEvent ''EVT-0002'' ''00:01:00'' (Some ''2024-01-01T10:05:00Z''),
         stampedEvent ''EVT-0003'' ''00:02:00'' None])
       \<lparr>dateTimeFrom := Some ''2024-01-01T10:01:00Z'', dateTimeTo := Some ''2024-01-01T10:10:00Z''\<rparr>"

text \<open>A number that is not negative and not NaN.\<close>

definition nonnegNum :: "jsnum \<Rightarrow> bool" where
  "nonnegNum x \<longleftrightarrow> x = PInf \<or> (\<exists>q. 0 \<le> q \<and> x = Fin q)"

definition malformedEvent :: DetectionEvent where
  "malformedEvent = sampleEvent ''EVT-0001'' ''12:30'' Large"

definition malformedDashboard :: Dashboard where
  "malformedDashboard =
     (sampleDashboard [malformedEvent, sampleEvent ''EVT-0002'' ''00:01:00'' Small])\<lparr>timeRange := Range_5m\<rparr>"

text \<open>A stand-in for \<open>String\<close> of a number that knows two numbers.\<close>

definition sampleNumToString :: "jsnum \<Rightarrow> string" where
  "sampleNumToString n = (if n = fl (9 / 10) then ''0.9'' else if n = Fin 5 then ''5'' else ''NaN'')"

definition quotedSource :: string where
  "quotedSource = ''He said '' @ [dquote] @ ''rush'' @ [dquote]"

definition quotedEvent :: DetectionEvent where
  "quotedEvent = (sampleEvent ''EVT-0001'' ''00:01:00'' Small)\<lparr>source := quotedSource\<rparr>"



definition arraySizeFeed :: json where
  "arraySizeFeed = JObj [(''events'', JArr [JObj [(''size'', JArr [JStr ''Small''])]])]"

definition mixedFeed :: json where
  "mixedFeed = JObj [(''events'', JArr [JObj [(''size'', JStr ''Huge'')], JObj [(''size'', JStr ''Small'')]])]"

definition throwingFeed :: json where
  "throwingFeed =
     JObj [(''events'', JArr [JObj [(''size'', JStr ''Small'')],
                              JObj [(''size'', JObj [(''toString'', JNull)])]])]"

definition loadedDashboard :: "json \<Rightarrow> Dashboard" where
  "loadedDashboard j = (sampleDashboard [])\<lparr>eventsFromFile := load sampleNumToString (Body j)\<rparr>"

definition windowedDashboard :: Dashboard where
  "windowedDashboard =
     (sampleDashboard [malformedEvent, sampleEvent ''EVT-0002'' ''00:10:00'' Small])\<lparr>timeRange := Range_5m\<rparr>"



definition hugeFeed :: json where
  "hugeFeed = JObj [(''events'', JArr [JObj [(''size'', JStr ''Huge'')]])]"

text \<open>Two states of the dashboard that show synthetic events for the same video and differ
  in everything else.\<close>

definition firstRun :: Dashboard where
  "firstRun = sampleDashboard []"

definition secondRun :: Dashboard where
  "secondRun = (sampleDashboard [])\<lparr>eventsFromFile := None, timeRange := Range_10m,
                                     eventConfidenceMin := Fin 0, eventSizeFilter := Only XL\<rparr>"

section \<open>Rounding to a double\<close>

lemma pow2_powi: "pow2 e = 2 powi e"
  by (simp add: pow2_def power_int_def inverse_eq_divide power_one_over)

lemma ilog2_bounds: "0 < n \<Longrightarrow> 2 ^ ilog2 n \<le> n \<and> n < 2 ^ (ilog2 n + 1)"
proof (induction n rule: ilog2.induct)
  case (1 n)
  show ?case
  proof (cases "n < 2")
    case True
    with "1.prems" show ?thesis by (simp add: ilog2.simps [of n])
  next
    case False
    then have "0 < n div 2" by simp
    from "1.IH" [OF False this] have "2 ^ ilog2 (n div 2) \<le> n div 2" "n div 2 < 2 ^ (ilog2 (n div 2) + 1)"
      by simp_all
    then have "2 * 2 ^ ilog2 (n div 2) \<le> n" "n < 2 * 2 ^ (ilog2 (n div 2) + 1)"
      by linarith+
    with False show ?thesis by (simp add: ilog2.simps [of n])
  qed
qed

lemma floor_log2_bounds:
  assumes "0 < q"
  shows "pow2 (floor_log2 q) \<le> q \<and> q < pow2 (floor_log2 q + 1)"
proof -
  obtain a b where ab: "quotient_of q = (a, b)" by (cases "quotient_of q")
  then have b: "0 < b" by (rule quotient_of_denom_pos)
  have q: "q = of_int a / of_int b" using ab by (rule quotient_of_div)
  have a: "0 < a" using assms b q by (simp add: zero_less_divide_iff)
  define la where "la = ilog2 (nat a)"
  define lb where "lb = ilog2 (nat b)"
  from ilog2_bounds [of "nat a"] a have "2 ^ la \<le> nat a" "nat a < 2 ^ (la + 1)"
    by (simp_all add: la_def)
  then have A: "(2::rat) ^ la \<le> of_int a" "(of_int a :: rat) < 2 ^ (la + 1)"
    using a by (metis of_nat_le_iff of_nat_nat of_nat_numeral of_nat_power of_int_of_nat_eq less_imp_le,
                metis of_nat_less_iff of_nat_nat of_nat_numeral of_nat_power of_int_of_nat_eq less_imp_le)
  from ilog2_bounds [of "nat b"] b have "2 ^ lb \<le> nat b" "nat b < 2 ^ (lb + 1)"
    by (simp_all add: lb_def)
  then have B: "(2::rat) ^ lb \<le> of_int b" "(of_int b :: rat) < 2 ^ (lb + 1)"
    using b by (metis of_nat_le_iff of_nat_nat of_nat_numeral of_nat_power of_int_of_nat_eq less_imp_le,
                metis of_nat_less_iff of_nat_nat of_nat_numeral of_nat_power of_int_of_nat_eq less_imp_le)
  define e0 where "e0 = int la - int lb"
  have bpos: "(0::rat) < of_int b" using b by simp
  have up: "q < pow2 (e0 + 1)"
  proof -
    have "q < 2 ^ (la + 1) / of_int b" unfolding q using A(2) bpos by (simp add: divide_strict_right_mono)
    also have "\<dots> \<le> 2 ^ (la + 1) / 2 ^ lb" using B(1) by (simp add: frac_le)
    also have "\<dots> = pow2 (e0 + 1)"
      by (simp add: pow2_powi e0_def power_int_diff power_int_add)
    finally show ?thesis .
  qed
  have lo: "pow2 (e0 - 1) \<le> q"
  proof -
    have "pow2 (e0 - 1) = 2 ^ la / 2 ^ (lb + 1)"
      by (simp add: pow2_powi e0_def power_int_diff)
    also have "\<dots> \<le> 2 ^ la / of_int b" using B(2) bpos by (simp add: frac_le)
    also have "\<dots> \<le> q" unfolding q using A(1) bpos by (simp add: divide_right_mono)
    finally show ?thesis .
  qed
  have fl2: "floor_log2 q = (if pow2 e0 \<le> q then e0 else e0 - 1)"
    by (simp add: floor_log2_def ab la_def lb_def e0_def Let_def)
  show ?thesis
  proof (cases "pow2 e0 \<le> q")
    case True with up fl2 show ?thesis by simp
  next
    case False with lo fl2 show ?thesis by simp
  qed
qed

lemma pow2_mono: "a \<le> b \<Longrightarrow> pow2 a \<le> pow2 b"
  by (simp add: pow2_powi power_int_increasing)

lemma pow2_less_imp: "pow2 a < pow2 b \<Longrightarrow> a < b"
  using pow2_mono [of b a] by (cases "a < b") auto

lemma pow2_pos: "0 < pow2 e"
  by (simp add: pow2_powi)

lemma pow2_add: "pow2 (a + b) = pow2 a * pow2 b"
  by (simp add: pow2_powi power_int_add)

lemma round_half_even_of_int: "round_half_even (of_int k) = k"
  by (simp add: round_half_even_def)

lemma round_half_even_ge: "of_int k \<le> r \<Longrightarrow> k \<le> round_half_even r"
proof -
  assume "of_int k \<le> r"
  then have "k \<le> \<lfloor>r\<rfloor>" by (simp add: le_floor_iff)
  then show ?thesis by (auto simp: round_half_even_def Let_def)
qed

lemma round_half_even_le: "r \<le> of_int k \<Longrightarrow> round_half_even r \<le> k"
proof -
  assume le: "r \<le> of_int k"
  show ?thesis
  proof (cases "r = of_int k")
    case True then show ?thesis by (simp add: round_half_even_of_int)
  next
    case False
    with le have "r < of_int k" by simp
    then have "\<lfloor>r\<rfloor> < k" by (simp add: floor_less_iff)
    then show ?thesis by (auto simp: round_half_even_def Let_def)
  qed
qed

text \<open>The rounded value of a positive number lies between the two powers of two around it.\<close>

lemma fl_pos_value:
  assumes "0 < q" "- 1022 \<le> floor_log2 q"
  defines "v \<equiv> of_int (round_half_even (q / pow2 (floor_log2 q - 52))) * pow2 (floor_log2 q - 52)"
  shows "fl_pos q = (if 2 ^ 1024 \<le> v then None else Some v)"
    and "pow2 (floor_log2 q) \<le> v" and "v \<le> pow2 (floor_log2 q + 1)"
proof -
  define L where "L = floor_log2 q"
  have e: "max (L - 52) (- 1074) = L - 52" using assms(2) by (simp add: L_def)
  show "fl_pos q = (if 2 ^ 1024 \<le> v then None else Some v)"
    by (simp add: fl_pos_def Let_def e [unfolded L_def] v_def)
  have p: "0 < pow2 (L - 52)" by (rule pow2_pos)
  from floor_log2_bounds [OF assms(1)] have b: "pow2 L \<le> q" "q < pow2 (L + 1)" by (simp_all add: L_def)
  have "pow2 (52 + (L - 52)) = pow2 52 * pow2 (L - 52)" by (rule pow2_add)
  moreover have "52 + (L - 52) = L" by arith
  moreover have "pow2 52 = 2 ^ 52" by (simp add: pow2_def)
  ultimately have "pow2 L = 2 ^ 52 * pow2 (L - 52)" by simp
  then have "of_int (2 ^ 52) \<le> q / pow2 (L - 52)" using b(1) p by (simp add: pos_le_divide_eq)
  then have "2 ^ 52 \<le> round_half_even (q / pow2 (L - 52))" by (rule round_half_even_ge)
  then have "(2::rat) ^ 52 \<le> of_int (round_half_even (q / pow2 (L - 52)))"
    by (metis of_int_le_iff of_int_numeral of_int_power)
  then have "2 ^ 52 * pow2 (L - 52) \<le> v" using p by (simp add: v_def L_def)
  then show "pow2 (floor_log2 q) \<le> v" using \<open>pow2 L = 2 ^ 52 * pow2 (L - 52)\<close> by (simp add: L_def)
  have "pow2 (53 + (L - 52)) = pow2 53 * pow2 (L - 52)" by (rule pow2_add)
  moreover have "53 + (L - 52) = L + 1" by arith
  moreover have "pow2 53 = 2 ^ 53" by (simp add: pow2_def)
  ultimately have "pow2 (L + 1) = 2 ^ 53 * pow2 (L - 52)" by simp
  then have "q / pow2 (L - 52) \<le> of_int (2 ^ 53)" using b(2) p by (simp add: pos_divide_le_eq)
  then have "round_half_even (q / pow2 (L - 52)) \<le> 2 ^ 53" by (rule round_half_even_le)
  then have "of_int (round_half_even (q / pow2 (L - 52))) \<le> (2::rat) ^ 53"
    by (metis of_int_le_iff of_int_numeral of_int_power)
  then have "v \<le> 2 ^ 53 * pow2 (L - 52)" using p by (simp add: v_def L_def)
  then show "v \<le> pow2 (floor_log2 q + 1)" using \<open>pow2 (L + 1) = 2 ^ 53 * pow2 (L - 52)\<close> by (simp add: L_def)
qed

lemma fl_overflow:
  assumes "2 ^ 1024 \<le> q"
  shows "fl q = PInf"
proof -
  have "(0::rat) < 2 ^ 1024" by simp
  with assms have q: "0 < q" by linarith
  have "pow2 1024 \<le> q" using assms by (simp add: pow2_def)
  also have "q < pow2 (floor_log2 q + 1)" using floor_log2_bounds [OF q] by simp
  finally have L: "1024 \<le> floor_log2 q" using pow2_less_imp by fastforce
  then have n: "- 1022 \<le> floor_log2 q" by simp
  have "pow2 1024 \<le> pow2 (floor_log2 q)" using L by (rule pow2_mono)
  also note fl_pos_value(2) [OF q n]
  finally have "fl_pos q = None" using fl_pos_value(1) [OF q n] by (simp add: pow2_def)
  then show ?thesis using q by (simp add: fl_def)
qed

lemma fl_large_finite:
  assumes "1 \<le> q" "q < 2 ^ 1023"
  shows "\<exists>v. fl q = Fin v \<and> q < 2 * v"
proof -
  have q: "0 < q" using assms by simp
  have "pow2 0 \<le> q" using assms by (simp add: pow2_def)
  also have "q < pow2 (floor_log2 q + 1)" using floor_log2_bounds [OF q] by simp
  finally have "0 \<le> floor_log2 q" using pow2_less_imp by fastforce
  then have n: "- 1022 \<le> floor_log2 q" by simp
  define v where "v = of_int (round_half_even (q / pow2 (floor_log2 q - 52))) * pow2 (floor_log2 q - 52)"
  note fv = fl_pos_value [OF q n, folded v_def]
  have "pow2 (floor_log2 q) \<le> q" using floor_log2_bounds [OF q] by simp
  also have "q < pow2 1023" using assms by (simp add: pow2_def)
  finally have "floor_log2 q + 1 \<le> 1023" using pow2_less_imp by fastforce
  then have "pow2 (floor_log2 q + 1) \<le> pow2 1023" by (rule pow2_mono)
  with fv(3) have "v \<le> 2 ^ 1023" by (simp add: pow2_def)
  then have "fl_pos q = Some v" using fv(1) by simp
  moreover have "q < 2 * v"
  proof -
    have "q < pow2 (floor_log2 q + 1)" using floor_log2_bounds [OF q] by simp
    also have "\<dots> = 2 * pow2 (floor_log2 q)"
      using pow2_add [of "floor_log2 q" 1] by (simp add: pow2_def [of 1])
    also have "\<dots> \<le> 2 * v" using fv(2) by simp
    finally show ?thesis .
  qed
  ultimately show ?thesis using q by (simp add: fl_def)
qed

lemma fl_neg: "fl (- q) = jneg (fl q)"
  by (cases "q = 0"; cases "0 < q") (auto simp: fl_def split: option.splits)

lemmas StringToNumber_eval =
  StringToNumber_def trimJs_def isWhite_def decimalLiteral_def isDigit_def
  exponentPart_def natOfDigits_def digitVal_def pow10_def

lemma fl_of_int_pos:
  assumes "0 < k" "k < 2 ^ 53"
  shows "fl (of_int k) = Fin (of_int k)"
proof -
  define q :: rat where "q = of_int k"
  have q: "0 < q" using assms by (simp add: q_def)
  define L where "L = floor_log2 q"
  from floor_log2_bounds [OF q] have b: "pow2 L \<le> q" "q < pow2 (L + 1)" by (simp_all add: L_def)
  have "pow2 0 \<le> q" using assms by (simp add: pow2_def q_def)
  also note b(2)
  finally have L0: "0 \<le> L" using pow2_less_imp by fastforce
  have "q < 2 ^ 53" using assms(2) unfolding q_def
    by (metis of_int_less_iff of_int_numeral of_int_power)
  then have "q < pow2 53" by (simp add: pow2_def)
  with b(1) have "pow2 L < pow2 53" by (rule le_less_trans)
  then have L52: "L \<le> 52" using pow2_less_imp by fastforce
  define n where "n = nat (52 - L)"
  have e: "pow2 (L - 52) = 1 / 2 ^ n" using L52
    by (cases "L = 52") (simp_all add: pow2_def n_def)
  have "q / pow2 (L - 52) = of_int (k * 2 ^ n)" by (simp add: e q_def)
  then have r: "round_half_even (q / pow2 (L - 52)) = k * 2 ^ n"
    by (simp only: round_half_even_of_int)
  have v: "of_int (round_half_even (q / pow2 (L - 52))) * pow2 (L - 52) = q"
    unfolding r by (simp add: e q_def)
  have "- 1022 \<le> floor_log2 q" using L0 by (simp add: L_def)
  from fl_pos_value(1) [OF q this] have "fl_pos q = (if 2 ^ 1024 \<le> q then None else Some q)"
    using v by (simp add: L_def)
  moreover have "q < 2 ^ 1024" using \<open>q < 2 ^ 53\<close> by (rule less_trans) simp
  ultimately have "fl_pos q = Some q" by simp
  then show ?thesis using q by (simp add: fl_def q_def)
qed

lemma fl_of_int:
  assumes "\<bar>k\<bar> < 2 ^ 53"
  shows "fl (of_int k) = Fin (of_int k)"
proof (cases "0 < k")
  case True
  with assms show ?thesis by (simp add: fl_of_int_pos)
next
  case False
  show ?thesis
  proof (cases "k = 0")
    case True then show ?thesis by (simp add: fl_def)
  next
    case nz: False
    with False assms have "0 < - k" "- k < 2 ^ 53" by simp_all
    from fl_of_int_pos [OF this] fl_neg [of "of_int (- k)"] show ?thesis by simp
  qed
qed

lemma fl_numeral: "(numeral n :: int) < 2 ^ 53 \<Longrightarrow> fl (numeral n) = Fin (numeral n)"
  using fl_of_int [of "numeral n"] by simp

lemma fl_0: "fl 0 = Fin 0"
  by (simp add: fl_def)

lemma fl_1: "fl 1 = Fin 1"
  using fl_of_int [of 1] by simp

lemma floor_log2_unique:
  assumes "pow2 L \<le> q" "q < pow2 (L + 1)"
  shows "floor_log2 q = L"
proof -
  have q: "0 < q" using pow2_pos [of L] assms(1) by simp
  from floor_log2_bounds [OF q] have b: "pow2 (floor_log2 q) \<le> q" "q < pow2 (floor_log2 q + 1)"
    by simp_all
  have "pow2 L < pow2 (floor_log2 q + 1)" using assms(1) b(2) by (rule le_less_trans)
  then have 1: "L < floor_log2 q + 1" by (rule pow2_less_imp)
  have "pow2 (floor_log2 q) < pow2 (L + 1)" using b(1) assms(2) by (rule le_less_trans)
  then have 2: "floor_log2 q < L + 1" by (rule pow2_less_imp)
  from 1 2 show ?thesis by simp
qed

text \<open>Rounding a number whose binary exponent \<open>L\<close> is known.\<close>

lemma fl_eval:
  assumes "pow2 L \<le> q" "q < pow2 (L + 1)" "- 1022 \<le> L" "L \<le> 1022"
  shows "fl q = Fin (of_int (round_half_even (q / pow2 (L - 52))) * pow2 (L - 52))"
proof -
  have q: "0 < q" using pow2_pos [of L] assms(1) by simp
  have L: "floor_log2 q = L" using assms(1,2) by (rule floor_log2_unique)
  have n: "- 1022 \<le> floor_log2 q" using assms(3) L by simp
  define v where "v = of_int (round_half_even (q / pow2 (L - 52))) * pow2 (L - 52)"
  note fv = fl_pos_value [OF q n, unfolded L, folded v_def]
  have "pow2 (L + 1) \<le> pow2 1023" using assms(4) by (intro pow2_mono) simp
  with fv(3) have "v \<le> 2 ^ 1023" by (simp add: pow2_def)
  also have "(2::rat) ^ 1023 < 2 ^ 1024" by simp
  finally have "fl_pos q = Some v" using fv(1) by simp
  then show ?thesis using q by (simp add: fl_def v_def)
qed

lemma floor_rat_divide_numeral: "\<lfloor>numeral a / numeral b :: rat\<rfloor> = numeral a div numeral b"
  by (metis floor_divide_of_int_eq of_int_numeral)

lemmas fl_eval_simps = pow2_def round_half_even_def Let_def floor_rat_divide_numeral

lemma fl_nine_tenths: "fl (9 / 10) = Fin (8106479329266893 / 9007199254740992)"
  using fl_eval [of "- 1" "9 / 10"] by (simp add: fl_eval_simps)

lemma fl_seven_tenths: "fl (7 / 10) = Fin (3152519739159347 / 4503599627370496)"
  using fl_eval [of "- 1" "7 / 10"] by (simp add: fl_eval_simps)


section \<open>Properties of the aggregator\<close>


lemma round_half_even_nonneg: "0 \<le> r \<Longrightarrow> 0 \<le> round_half_even r"
  by (auto simp: round_half_even_def Let_def)

lemma fl_nonneg: "0 \<le> q \<Longrightarrow> fl q = PInf \<or> (\<exists>v. 0 \<le> v \<and> fl q = Fin v)"
proof (cases "q = 0")
  case True then show ?thesis by (simp add: fl_def)
next
  case False
  assume "0 \<le> q"
  with False have q: "0 < q" by simp
  show ?thesis
  proof (cases "fl_pos q")
    case None then show ?thesis using q by (simp add: fl_def)
  next
    case (Some v)
    define e where "e = max (floor_log2 q - 52) (- 1074)"
    have "0 \<le> q / pow2 e" using q pow2_pos [of e] by simp
    then have "0 \<le> round_half_even (q / pow2 e)" by (rule round_half_even_nonneg)
    then have "(0::rat) \<le> of_int (round_half_even (q / pow2 e)) * pow2 e"
      using pow2_pos [of e] by simp
    moreover have "v = of_int (round_half_even (q / pow2 e)) * pow2 e"
      using Some by (simp add: fl_pos_def Let_def e_def split: if_splits)
    ultimately show ?thesis using q Some by (simp add: fl_def)
  qed
qed

lemma hmsToSeconds_range:
  "hmsToSeconds t = NaN \<or> hmsToSeconds t = PInf \<or> (\<exists>q. 0 \<le> q \<and> hmsToSeconds t = Fin q)"
proof -
  have *: "jmax (Fin 0) x = NaN \<or> jmax (Fin 0) x = PInf \<or> (\<exists>q. 0 \<le> q \<and> jmax (Fin 0) x = Fin q)" for x
    by (cases x) auto
  show ?thesis
    unfolding hmsToSeconds_def using *
    by (auto split: list.splits)
qed

lemma bucketIndex_Fin:
  assumes "0 \<le> q"
  shows "\<exists>i<60. arrayIndex (clamp (jfloor (jdiv (Fin q) (Fin 60))) (Fin 0) (Fin 59)) = Some i"
proof -
  have "0 \<le> q / 60" using assms by simp
  from fl_nonneg [OF this] show ?thesis
  proof (elim disjE exE conjE)
    assume "fl (q / 60) = PInf"
    then show ?thesis by (simp add: clamp_def arrayIndex_def)
  next
    fix v :: rat assume v: "0 \<le> v" "fl (q / 60) = Fin v"
    have "min (59::rat) (max 0 (of_int \<lfloor>v\<rfloor>)) = of_int (min 59 (max 0 \<lfloor>v\<rfloor>))"
      by (simp add: of_int_min of_int_max)
    then show ?thesis using v
      by (simp add: clamp_def arrayIndex_def)
  qed
qed

lemma bucketIndex_60:
  "bucketIndex 60 e = None \<longleftrightarrow> hmsToSeconds (time e) = NaN"
proof -
  consider "hmsToSeconds (time e) = NaN" | "hmsToSeconds (time e) = PInf"
    | q where "0 \<le> q" "hmsToSeconds (time e) = Fin q"
    using hmsToSeconds_range [of "time e"] by blast
  then show ?thesis
  proof cases
    case 1 then show ?thesis by (simp add: bucketIndex_def clamp_def arrayIndex_def)
  next
    case 2 then show ?thesis by (simp add: bucketIndex_def clamp_def arrayIndex_def)
  next
    case 3
    from bucketIndex_Fin [OF 3(1)] obtain i where "i < 60"
      "arrayIndex (clamp (jfloor (jdiv (Fin q) (Fin 60))) (Fin 0) (Fin 59)) = Some i" by blast
    then show ?thesis using 3 by (simp add: bucketIndex_def)
  qed
qed

lemma bucketIndex_lt: "bucketIndex n e = Some i \<Longrightarrow> i < n"
  by (auto simp: bucketIndex_def Let_def split: option.splits if_splits)

lemma addEvent_length: "length (addEvent bs e) = length bs"
  by (auto simp: addEvent_def split: option.splits)

lemma bump_total: "total (bump s b) = total b + 1" by (cases s) auto

lemma addEvent_sum:
  "sum_list (map total (addEvent bs e)) =
   sum_list (map total bs) + (if bucketIndex (length bs) e = None then 0 else 1)"
proof (cases "bucketIndex (length bs) e")
  case None then show ?thesis by (simp add: addEvent_def)
next
  case (Some i)
  then have i: "i < length bs" by (rule bucketIndex_lt)
  have "sum_list ((map total bs)[i := total (bs ! i) + 1]) = sum_list (map total bs) + (total (bs ! i) + 1) - (map total bs) ! i"
    using i by (simp add: sum_list_update)
  then show ?thesis using Some i by (simp add: addEvent_def map_update bump_total)
qed

lemma foldl_addEvent_length: "length (foldl addEvent bs es) = length bs"
  by (induction es arbitrary: bs) (simp_all add: addEvent_length)

lemma foldl_addEvent_sum:
  "sum_list (map total (foldl addEvent bs es)) =
   sum_list (map total bs) + length (filter (\<lambda>e. bucketIndex (length bs) e \<noteq> None) es)"
  by (induction es arbitrary: bs) (simp_all add: addEvent_sum addEvent_length)

lemma minuteData_length: "length (minuteData es) = 60"
  by (simp add: minuteData_def foldl_addEvent_length emptyBuckets_def)

lemma emptyBuckets_sum: "sum_list (map total (emptyBuckets n)) = 0"
  by (simp add: emptyBuckets_def comp_def)

lemma minuteData_sum:
  "sum_list (map total (minuteData es)) = length (filter (\<lambda>e. hmsToSeconds (time e) \<noteq> NaN) es)"
proof -
  have "length (emptyBuckets 60) = 60" by (simp add: emptyBuckets_def)
  then show ?thesis
    by (simp add: minuteData_def foldl_addEvent_sum emptyBuckets_sum bucketIndex_60)
qed

lemma totals_sum: "sum_total (totals data) = sum_list (map total data)"
proof -
  have "sum_total (foldl (\<lambda>base p. \<lparr>sum_total = sum_total base + total p, sum_Small = sum_Small base + nSmall p,
                       sum_Medium = sum_Medium base + nMedium p, sum_Large = sum_Large base + nLarge p,
                       sum_XL = sum_XL base + nXL p\<rparr>) b data) = sum_total b + sum_list (map total data)" for b
    by (induction data arbitrary: b) simp_all
  then show ?thesis by (simp add: totals_def)
qed





lemma bump_inv: "total b = nSmall b + nMedium b + nLarge b + nXL b \<Longrightarrow>
  total (bump s b) = nSmall (bump s b) + nMedium (bump s b) + nLarge (bump s b) + nXL (bump s b)" by (cases s) auto

lemma addEvent_inv:
  assumes "\<forall>b\<in>set bs. total b = nSmall b + nMedium b + nLarge b + nXL b"
  shows "\<forall>b\<in>set (addEvent bs e). total b = nSmall b + nMedium b + nLarge b + nXL b"
proof (cases "bucketIndex (length bs) e")
  case None then show ?thesis using assms by (simp add: addEvent_def)
next
  case (Some i)
  then have "i < length bs" by (rule bucketIndex_lt)
  then have "total (bs ! i) = nSmall (bs ! i) + nMedium (bs ! i) + nLarge (bs ! i) + nXL (bs ! i)"
    using assms by simp
  then have "total (bump (size_ev e) (bs ! i)) = nSmall (bump (size_ev e) (bs ! i)) + nMedium (bump (size_ev e) (bs ! i)) + nLarge (bump (size_ev e) (bs ! i)) + nXL (bump (size_ev e) (bs ! i))"
    by (rule bump_inv)
  then show ?thesis using assms Some
    by (auto simp: addEvent_def dest!: set_update_subset_insert [THEN subsetD])
qed

lemma foldl_addEvent_inv:
  "\<forall>b\<in>set bs. total b = nSmall b + nMedium b + nLarge b + nXL b \<Longrightarrow>
   \<forall>b\<in>set (foldl addEvent bs es). total b = nSmall b + nMedium b + nLarge b + nXL b"
proof (induction es arbitrary: bs)
  case Nil then show ?case by simp
next
  case (Cons e es)
  show ?case using Cons.IH [OF addEvent_inv [OF Cons.prems]] by simp
qed


text \<open>
  Claim C1. For every event list and every bucket the per-minute aggregator produces,
  the bucket's total is the sum of its four per-category counts.
\<close>

theorem bucket_total_is_sum_of_categories:
  "\<forall>b\<in>set (minuteData events). total b = nSmall b + nMedium b + nLarge b + nXL b"
  unfolding minuteData_def by (rule foldl_addEvent_inv) (simp add: emptyBuckets_def)

theorem bucket_total_is_sum_of_categories_witness:
  "minuteData sampleEvents ! 1 \<in> set (minuteData sampleEvents) \<and>
   total (minuteData sampleEvents ! 1) =
     nSmall (minuteData sampleEvents ! 1) + nMedium (minuteData sampleEvents ! 1)
       + nLarge (minuteData sampleEvents ! 1) + nXL (minuteData sampleEvents ! 1)"
proof -
  have mem: "minuteData sampleEvents ! 1 \<in> set (minuteData sampleEvents)"
    by (rule nth_mem) (simp add: minuteData_length)
  from bucket_total_is_sum_of_categories [of sampleEvents] mem show ?thesis
    by blast
qed



section \<open>Times that overflow, and the count of a bucket\<close>

lemma hmsToSeconds_overflow: "hmsToSeconds ''5e307:-5e307:0'' = NaN"
proof -
  define q :: rat where "q = 5 * 10 ^ 307"
  have h: "StringToNumber ''5e307'' = fl q"
    by (simp add: StringToNumber_eval q_def)
  have m: "StringToNumber ''-5e307'' = fl (- q)"
    by (simp add: StringToNumber_eval q_def)
  have s: "StringToNumber ''0'' = Fin 0"
    by (simp add: StringToNumber_eval fl_def)
  have "1 \<le> q" "q < 2 ^ 1023" by (simp_all add: q_def)
  from fl_large_finite [OF this] obtain v where v: "fl q = Fin v" "q < 2 * v"
    by blast
  have big: "2 ^ 1024 \<le> 30 * q" by (simp add: q_def)
  have "30 * q \<le> v * 60" using v(2) by simp
  with big have "2 ^ 1024 \<le> v * 60" by (rule order_trans)
  then have o60: "fl (v * 60) = PInf" by (rule fl_overflow)
  have "30 * q \<le> v * 3600" using v(2) \<open>1 \<le> q\<close> by simp
  with big have "2 ^ 1024 \<le> v * 3600" by (rule order_trans)
  then have o3600: "fl (v * 3600) = PInf" by (rule fl_overflow)
  have neg: "fl (- (v * 60)) = NInf" using fl_neg [of "v * 60"] o60 by simp
  have parts: "split_on CHR '':'' ''5e307:-5e307:0'' = [''5e307'', ''-5e307'', ''0'']" by simp
  show ?thesis
    unfolding hmsToSeconds_def parts
    by (simp add: h m s fl_neg v(1) o3600 o60)
qed

lemma foldl_addEvent_count:
  "i < length bs \<Longrightarrow>
   total (foldl addEvent bs es ! i) =
     total (bs ! i) + length (filter (\<lambda>e. bucketIndex (length bs) e = Some i) es)"
proof (induction es arbitrary: bs)
  case Nil then show ?case by simp
next
  case (Cons e es)
  have len: "length (addEvent bs e) = length bs" by (rule addEvent_length)
  have step: "total (addEvent bs e ! i) = total (bs ! i) + (if bucketIndex (length bs) e = Some i then 1 else 0)"
  proof (cases "bucketIndex (length bs) e")
    case None then show ?thesis by (simp add: addEvent_def)
  next
    case (Some j)
    then have "j < length bs" by (rule bucketIndex_lt)
    then show ?thesis using Some Cons.prems by (auto simp: addEvent_def nth_list_update bump_total)
  qed
  from Cons.prems len have "i < length (addEvent bs e)" by simp
  from Cons.IH [OF this] show ?case by (simp add: step len)
qed

lemma minuteData_count:
  "i < 60 \<Longrightarrow> total (minuteData es ! i) = length (filter (\<lambda>e. bucketIndex 60 e = Some i) es)"
  using foldl_addEvent_count [of i "emptyBuckets 60" es]
  by (simp add: minuteData_def emptyBuckets_def)

lemma jmax_NaN_right: "jmax x NaN = NaN"
  by (cases x) simp_all

lemma foldl_jmax_NaN: "foldl jmax NaN xs = NaN"
  by (induction xs) simp_all

lemma jmax_list_NaN: "NaN \<in> set xs \<Longrightarrow> jmax_list (x # xs) = NaN"
proof -
  have "NaN \<in> set xs \<Longrightarrow> foldl jmax a xs = NaN" for a
    by (induction xs arbitrary: a) (auto simp: jmax_NaN_right foldl_jmax_NaN)
  then show "NaN \<in> set xs \<Longrightarrow> jmax_list (x # xs) = NaN" by (simp add: jmax_list_def)
qed

lemma jle_NaN_left: "jle NaN x = False"
  by simp

text \<open>One time string that converts to NaN empties the relative window.\<close>

lemma relative_window_NaN:
  assumes "completed st" "\<not> truthy (dateTimeFrom st)" "\<not> truthy (dateTimeTo st)"
    and "timeRange st \<noteq> Range_all"
    and "\<exists>e\<in>set (baseEvents st). hmsToSeconds (time e) = NaN"
  shows "timeFilteredEvents dateParse st = []"
proof -
  from assms(5) have "NaN \<in> set (map (\<lambda>e. hmsToSeconds (time e)) (baseEvents st))" by force
  then have "maxSec st = NaN"
    unfolding maxSec_def by (rule jmax_list_NaN)
  then show ?thesis using assms(1-4) by (simp add: timeFilteredEvents_def minSec_def jsub_def)
qed

section \<open>The time-range filter\<close>

lemma baseEvents_sample: "evs \<noteq> [] \<Longrightarrow> baseEvents (sampleDashboard evs) = evs"
  by (simp add: baseEvents_def sampleDashboard_def)

text \<open>
  Claim C2 at the event whose time is \<open>5e307:-5e307:0\<close>: the list that reaches the
  aggregator holds one event, the aggregator returns 60 buckets, and their totals add up
  to 0.
\<close>

theorem overflow_event_lands_in_no_bucket:
  "timeFilteredEvents sampleDateParse (sampleDashboard [overflowEvent]) = [overflowEvent] \<and>
   length (minuteData [overflowEvent]) = 60 \<and>
   sum_total (totals (minuteData [overflowEvent])) = 0"
proof -
  have "hmsToSeconds (time overflowEvent) = NaN"
    by (simp add: overflowEvent_def sampleEvent_def hmsToSeconds_overflow)
  then have "sum_total (totals (minuteData [overflowEvent])) = 0"
    by (simp add: totals_sum minuteData_sum)
  moreover have "timeFilteredEvents sampleDateParse (sampleDashboard [overflowEvent]) = [overflowEvent]"
    by (simp add: timeFilteredEvents_def baseEvents_sample) (simp add: sampleDashboard_def truthy_def)
  ultimately show ?thesis by (simp add: minuteData_length)
qed

lemma hmsToSeconds_ten_seconds: "hmsToSeconds ''00:00:10'' = Fin 10"
  by (simp add: hmsToSeconds_def StringToNumber_eval fl_0 fl_numeral)

text \<open>
  Claim C4 at a list of two events, one ten seconds into the session and one whose time
  is \<open>5e307:-5e307:0\<close>, with the 5-minute window: nothing is retained, not even the
  event at ten seconds.
\<close>

theorem overflow_event_empties_relative_window:
  "timeFilteredEvents sampleDateParse
     ((sampleDashboard [sampleEvent ''EVT-0001'' ''00:00:10'' Small, overflowEvent])\<lparr>timeRange := Range_5m\<rparr>) = []"
proof -
  let ?st = "(sampleDashboard [sampleEvent ''EVT-0001'' ''00:00:10'' Small, overflowEvent])\<lparr>timeRange := Range_5m\<rparr>"
  have base: "baseEvents ?st = [sampleEvent ''EVT-0001'' ''00:00:10'' Small, overflowEvent]"
    by (simp add: baseEvents_def sampleDashboard_def)
  have "hmsToSeconds (time overflowEvent) = NaN"
    by (simp add: overflowEvent_def sampleEvent_def hmsToSeconds_overflow)
  then have "\<exists>e\<in>set (baseEvents ?st). hmsToSeconds (time e) = NaN" by (simp add: base)
  then show ?thesis
    by (rule relative_window_NaN [rotated -1]) (simp_all add: sampleDashboard_def truthy_def)
qed

text \<open>
  Claim C5. In absolute mode (a from- or a to-bound is supplied), an event with no
  timestamp, or with one that \<open>Date.parse\<close> cannot read, is left out; an event whose
  timestamp parses is kept exactly when it is not before the from-bound (when that
  parses) and not after the to-bound (when that parses). A bound that is missing or does
  not parse constrains nothing.
\<close>

theorem absolute_mode_keeps_stamped_events_in_bounds:
  assumes "truthy (dateTimeFrom st) \<or> truthy (dateTimeTo st)"
  shows "timeFilteredEvents dateParse st =
     filter (\<lambda>e. \<exists>ts ms. timestamp e = Some ts \<and> dateParse ts = Fin ms \<and>
                (\<forall>s f. dateTimeFrom st = Some s \<and> dateParse s = Fin f \<longrightarrow> f \<le> ms) \<and>
                (\<forall>s t. dateTimeTo st = Some s \<and> dateParse s = Fin t \<longrightarrow> ms \<le> t))
       (baseEvents st)"
proof (cases "completed st")
  case False
  then show ?thesis by (simp add: timeFilteredEvents_def baseEvents_def)
next
  case True
  have keep: "absoluteKeep dateParse (parseDateTimeMs dateParse (dateTimeFrom st))
                (parseDateTimeMs dateParse (dateTimeTo st)) e \<longleftrightarrow>
     (\<exists>ts ms. timestamp e = Some ts \<and> dateParse ts = Fin ms \<and>
                (\<forall>s f. dateTimeFrom st = Some s \<and> dateParse s = Fin f \<longrightarrow> f \<le> ms) \<and>
                (\<forall>s t. dateTimeTo st = Some s \<and> dateParse s = Fin t \<longrightarrow> ms \<le> t))" for e
  proof (cases "timestamp e")
    case None then show ?thesis by (simp add: absoluteKeep_def parseDateTimeMs_def)
  next
    case (Some ts)
    show ?thesis
    proof (cases "dateParse ts")
      case (Fin ms)
      have f: "(case parseDateTimeMs dateParse (dateTimeFrom st) of Some f \<Rightarrow> jlt (Fin ms) f | None \<Rightarrow> False)
         \<longleftrightarrow> \<not> (\<forall>s f. dateTimeFrom st = Some s \<and> dateParse s = Fin f \<longrightarrow> f \<le> ms)"
        by (cases "dateTimeFrom st"; cases "dateParse (the (dateTimeFrom st))")
           (auto simp: parseDateTimeMs_def)
      have t: "(case parseDateTimeMs dateParse (dateTimeTo st) of Some t \<Rightarrow> jlt t (Fin ms) | None \<Rightarrow> False)
         \<longleftrightarrow> \<not> (\<forall>s t. dateTimeTo st = Some s \<and> dateParse s = Fin t \<longrightarrow> ms \<le> t)"
        by (cases "dateTimeTo st"; cases "dateParse (the (dateTimeTo st))")
           (auto simp: parseDateTimeMs_def)
      show ?thesis using Some Fin f t
        by (simp add: absoluteKeep_def parseDateTimeMs_def)
    qed (use Some in \<open>simp_all add: absoluteKeep_def parseDateTimeMs_def\<close>)
  qed
  show ?thesis using True assms
    by (simp add: timeFilteredEvents_def keep cong: filter_cong)
qed

theorem absolute_mode_keeps_stamped_events_in_bounds_witness:
  "(truthy (dateTimeFrom specExample) \<or> truthy (dateTimeTo specExample)) \<and>
   timeFilteredEvents sampleDateParse specExample =
     [stampedEvent ''EVT-0002'' ''00:01:00'' (Some ''2024-01-01T10:05:00Z'')]"
proof -
  have t: "truthy (dateTimeFrom specExample) \<or> truthy (dateTimeTo specExample)"
    by (simp add: specExample_def truthy_def)
  have base: "baseEvents specExample =
        [stampedEvent ''EVT-0001'' ''00:00:00'' (Some ''2024-01-01T10:00:00Z''),
         stampedEvent ''EVT-0002'' ''00:01:00'' (Some ''2024-01-01T10:05:00Z''),
         stampedEvent ''EVT-0003'' ''00:02:00'' None]"
    by (simp add: specExample_def baseEvents_def sampleDashboard_def)
  have "timeFilteredEvents sampleDateParse specExample =
     [stampedEvent ''EVT-0002'' ''00:01:00'' (Some ''2024-01-01T10:05:00Z'')]"
    unfolding absolute_mode_keeps_stamped_events_in_bounds [OF t, of sampleDateParse] base
    by (simp add: stampedEvent_def sampleEvent_def sampleDateParse_def specExample_def sampleDashboard_def)
  with t show ?thesis by simp
qed

lemma hmsToSeconds_nonneg: "hmsToSeconds t \<noteq> NaN \<Longrightarrow> nonnegNum (hmsToSeconds t)"
  using hmsToSeconds_range [of t] by (auto simp: nonnegNum_def)

lemma jmax_nonneg:
  assumes "nonnegNum a" "nonnegNum x"
  shows "nonnegNum (jmax a x)" "jle a (jmax a x)" "jle x (jmax a x)" "jmax a x = a \<or> jmax a x = x"
  using assms by (auto simp: nonnegNum_def max_def split: if_splits)

lemma jle_trans_nonneg: "jle a b \<Longrightarrow> jle b c \<Longrightarrow> jle a c"
  by (cases a; cases b; cases c) auto

lemma foldl_jmax_nonneg:
  assumes "nonnegNum a" "\<forall>x\<in>set xs. nonnegNum x"
  shows "nonnegNum (foldl jmax a xs) \<and> jle a (foldl jmax a xs) \<and>
         (\<forall>x\<in>set xs. jle x (foldl jmax a xs)) \<and> (foldl jmax a xs = a \<or> foldl jmax a xs \<in> set xs)"
  using assms
proof (induction xs arbitrary: a)
  case Nil
  then show ?case by (auto simp: nonnegNum_def)
next
  case (Cons x xs)
  from Cons.prems have x: "nonnegNum x" and xs: "\<forall>y\<in>set xs. nonnegNum y" by simp_all
  note m = jmax_nonneg [OF Cons.prems(1) x]
  from Cons.IH [OF m(1) xs] have ih:
    "nonnegNum (foldl jmax (jmax a x) xs)" "jle (jmax a x) (foldl jmax (jmax a x) xs)"
    "\<forall>y\<in>set xs. jle y (foldl jmax (jmax a x) xs)"
    "foldl jmax (jmax a x) xs = jmax a x \<or> foldl jmax (jmax a x) xs \<in> set xs" by simp_all
  have "jle a (foldl jmax (jmax a x) xs)" using m(2) ih(2) by (rule jle_trans_nonneg)
  moreover have "jle x (foldl jmax (jmax a x) xs)" using m(3) ih(2) by (rule jle_trans_nonneg)
  ultimately show ?case using ih m(4) by auto
qed

lemma maxSec_is_maximum:
  assumes "baseEvents st \<noteq> []" "\<forall>e\<in>set (baseEvents st). hmsToSeconds (time e) \<noteq> NaN"
  shows "maxSec st \<in> (\<lambda>e. hmsToSeconds (time e)) ` set (baseEvents st)"
    and "\<forall>e\<in>set (baseEvents st). jle (hmsToSeconds (time e)) (maxSec st)"
proof -
  define xs where "xs = map (\<lambda>e. hmsToSeconds (time e)) (baseEvents st)"
  have nn: "\<forall>x\<in>set xs. nonnegNum x" using assms(2) by (auto simp: xs_def hmsToSeconds_nonneg)
  have z: "nonnegNum (Fin 0)" by (simp add: nonnegNum_def)
  have m: "maxSec st = foldl jmax (Fin 0) xs" by (simp add: maxSec_def jmax_list_def xs_def)
  note f = foldl_jmax_nonneg [OF z nn, folded m]
  from f show "\<forall>e\<in>set (baseEvents st). jle (hmsToSeconds (time e)) (maxSec st)"
    by (simp add: xs_def)
  from assms(1) obtain x where x: "x \<in> set xs" by (cases "baseEvents st") (auto simp: xs_def)
  have "maxSec st \<in> set xs"
  proof (cases "maxSec st = Fin 0")
    case False with f show ?thesis by blast
  next
    case True
    from f x have "jle x (Fin 0)" by (simp add: True)
    moreover from nn x have "nonnegNum x" by blast
    ultimately have "x = Fin 0" by (auto simp: nonnegNum_def)
    with x True show ?thesis by simp
  qed
  then show "maxSec st \<in> (\<lambda>e. hmsToSeconds (time e)) ` set (baseEvents st)" by (simp add: xs_def)
qed

text \<open>The relative window when no time converts to NaN.\<close>

lemma relative_window:
  assumes "\<not> truthy (dateTimeFrom st)" "\<not> truthy (dateTimeTo st)" "timeRange st \<noteq> Range_all"
    and "baseEvents st \<noteq> []" "\<forall>e\<in>set (baseEvents st). hmsToSeconds (time e) \<noteq> NaN"
  shows "\<exists>maxOffset \<in> (\<lambda>e. hmsToSeconds (time e)) ` set (baseEvents st).
           (\<forall>e\<in>set (baseEvents st). jle (hmsToSeconds (time e)) maxOffset) \<and>
           timeFilteredEvents dateParse st =
             filter (\<lambda>e. jle (jmax (Fin 0) (jsub maxOffset (Fin (minutesOf (timeRange st) * 60))))
                          (hmsToSeconds (time e)) \<and> jle (hmsToSeconds (time e)) maxOffset)
               (baseEvents st)"
proof -
  have c: "completed st" using assms(4) by (auto simp: baseEvents_def split: if_splits)
  have "timeFilteredEvents dateParse st =
             filter (\<lambda>e. jle (jmax (Fin 0) (jsub (maxSec st) (Fin (minutesOf (timeRange st) * 60))))
                          (hmsToSeconds (time e)) \<and> jle (hmsToSeconds (time e)) (maxSec st))
               (baseEvents st)"
    using assms(1-4) c by (simp add: timeFilteredEvents_def minSec_def)
  with maxSec_is_maximum [OF assms(4,5)] show ?thesis by blast
qed

lemma all_time_is_identity:
  "\<not> truthy (dateTimeFrom st) \<Longrightarrow> \<not> truthy (dateTimeTo st) \<Longrightarrow> timeRange st = Range_all \<Longrightarrow>
   timeFilteredEvents dateParse st = baseEvents st"
  by (simp add: timeFilteredEvents_def baseEvents_def)

lemma hmsToSeconds_ten_minutes: "hmsToSeconds ''00:10:00'' = Fin 600"
  by (simp add: hmsToSeconds_def StringToNumber_eval fl_0 fl_1 fl_numeral)

text \<open>
  Claim C10 fails as it is stated: an event with a malformed time can be dropped after
  validation. With the times \<open>12:30\<close> and \<open>00:10:00\<close> and the range of five minutes the
  window is from 300 to 600 seconds; the malformed time counts as offset 0, which lies
  outside, and the event is neither retained nor counted in bucket 0.
\<close>

theorem malformed_time_is_dropped_by_the_window:
  "malformedEvent \<in> set (baseEvents windowedDashboard) \<and>
   hmsToSeconds (time malformedEvent) = Fin 0 \<and>
   timeFilteredEvents sampleDateParse windowedDashboard = [sampleEvent ''EVT-0002'' ''00:10:00'' Small] \<and>
   malformedEvent \<notin> set (timeFilteredEvents sampleDateParse windowedDashboard) \<and>
   total (minuteData (timeFilteredEvents sampleDateParse windowedDashboard) ! 0) = 0"
proof -
  have base: "baseEvents windowedDashboard = [malformedEvent, sampleEvent ''EVT-0002'' ''00:10:00'' Small]"
    by (simp add: windowedDashboard_def baseEvents_def sampleDashboard_def)
  have z: "hmsToSeconds (time malformedEvent) = Fin 0"
    by (simp add: malformedEvent_def sampleEvent_def hmsToSeconds_def)
  have t: "hmsToSeconds (time (sampleEvent ''EVT-0002'' ''00:10:00'' Small)) = Fin 600"
    by (simp add: sampleEvent_def hmsToSeconds_ten_minutes)
  have mx: "maxSec windowedDashboard = Fin 600"
    by (simp add: maxSec_def base jmax_list_def z t)
  have mn: "minSec windowedDashboard = Fin 300"
  proof -
    have "timeRange windowedDashboard = Range_5m" by (simp add: windowedDashboard_def)
    then have secs: "minutesOf (timeRange windowedDashboard) * 60 = 300" by (simp add: minutesOf_def)
    have "fl 300 = Fin 300" using fl_of_int [of 300] by simp
    then have "jsub (Fin 600) (Fin 300) = Fin 300" by (simp add: jsub_def)
    then show ?thesis by (simp add: minSec_def mx secs)
  qed
  have mode: "completed windowedDashboard" "\<not> truthy (dateTimeFrom windowedDashboard)"
    "\<not> truthy (dateTimeTo windowedDashboard)" "timeRange windowedDashboard \<noteq> Range_all"
    by (simp_all add: windowedDashboard_def sampleDashboard_def truthy_def)
  have ne: "malformedEvent \<noteq> sampleEvent ''EVT-0002'' ''00:10:00'' Small"
    by (simp add: malformedEvent_def sampleEvent_def)
  have tf: "timeFilteredEvents sampleDateParse windowedDashboard = [sampleEvent ''EVT-0002'' ''00:10:00'' Small]"
    using mode by (simp add: timeFilteredEvents_def base mx mn z t)
  have b: "bucketIndex 60 (sampleEvent ''EVT-0002'' ''00:10:00'' Small) = Some 10"
    using fl_of_int [of 10] by (simp add: bucketIndex_def t clamp_def arrayIndex_def)
  have cnt: "total (minuteData (timeFilteredEvents sampleDateParse windowedDashboard) ! 0) = 0"
    by (simp add: tf minuteData_count b)
  have mem: "malformedEvent \<in> set (baseEvents windowedDashboard)" by (simp add: base)
  have out: "malformedEvent \<notin> set (timeFilteredEvents sampleDateParse windowedDashboard)"
    using ne by (simp add: tf)
  show ?thesis by (intro conjI) (rule mem, rule z, rule tf, rule out, rule cnt)
qed

text \<open>
  Claim C10, amended. When the time string of an event is not three colon-separated
  parts that all convert to finite numbers (\<open>abc\<close>, \<open>12:30\<close>), \<open>hmsToSeconds\<close> returns 0
  and the bucket of the event is bucket 0: the aggregator counts it there whenever it is
  in the list it aggregates, the filter keeps it when all times are shown, and a relative
  window treats it as an event at offset 0, keeping it exactly when 0 lies between
  \<open>minSec\<close> and \<open>maxSec\<close>.
\<close>

theorem malformed_time_is_offset_zero:
  assumes "\<not> (\<exists>h m s. split_on CHR '':'' (time e) = [h, m, s] \<and> isFinite (StringToNumber h) \<and>
                  isFinite (StringToNumber m) \<and> isFinite (StringToNumber s))"
  shows "hmsToSeconds (time e) = Fin 0 \<and> bucketIndex 60 e = Some 0 \<and>
     (e \<in> set es \<longrightarrow>
        e \<in> set (filter (\<lambda>x. bucketIndex 60 x = Some 0) es) \<and>
        total (minuteData es ! 0) = length (filter (\<lambda>x. bucketIndex 60 x = Some 0) es)) \<and>
     (\<not> truthy (dateTimeFrom st) \<and> \<not> truthy (dateTimeTo st) \<and> e \<in> set (baseEvents st) \<longrightarrow>
        (if timeRange st = Range_all then e \<in> set (timeFilteredEvents dateParse st)
         else (e \<in> set (timeFilteredEvents dateParse st) \<longleftrightarrow>
                 jle (minSec st) (Fin 0) \<and> jle (Fin 0) (maxSec st))))"
proof -
  have z: "hmsToSeconds (time e) = Fin 0"
    using assms by (auto simp: hmsToSeconds_def split: list.splits)
  then have b: "bucketIndex 60 e = Some 0"
    by (simp add: bucketIndex_def clamp_def arrayIndex_def fl_0)
  have r: "e \<in> set (timeFilteredEvents dateParse st) \<longleftrightarrow> jle (minSec st) (Fin 0) \<and> jle (Fin 0) (maxSec st)"
    if "\<not> truthy (dateTimeFrom st)" "\<not> truthy (dateTimeTo st)" "e \<in> set (baseEvents st)" "timeRange st \<noteq> Range_all"
  proof -
    from that(3) have "baseEvents st \<noteq> []" by auto
    moreover from this have "completed st" by (auto simp: baseEvents_def split: if_splits)
    ultimately show ?thesis using that by (simp add: timeFilteredEvents_def z)
  qed
  show ?thesis using z b r by (simp add: minuteData_count all_time_is_identity)
qed

lemma hmsToSeconds_one_minute: "hmsToSeconds ''00:01:00'' = Fin 60"
  by (simp add: hmsToSeconds_def StringToNumber_eval fl_0 fl_1 fl_numeral)

lemma fl_neg_numeral: "(numeral n :: int) < 2 ^ 53 \<Longrightarrow> fl (- numeral n) = Fin (- numeral n)"
  by (simp add: fl_neg fl_numeral)


theorem malformed_time_is_offset_zero_witness:
  "\<not> (\<exists>h m s. split_on CHR '':'' (time malformedEvent) = [h, m, s] \<and>
         isFinite (StringToNumber h) \<and> isFinite (StringToNumber m) \<and> isFinite (StringToNumber s)) \<and>
   hmsToSeconds (time malformedEvent) = Fin 0 \<and>
   total (minuteData (baseEvents malformedDashboard) ! 0) = 1 \<and>
   malformedEvent \<in> set (timeFilteredEvents sampleDateParse malformedDashboard)"
proof -
  have bad: "\<not> (\<exists>h m s. split_on CHR '':'' (time malformedEvent) = [h, m, s] \<and>
         isFinite (StringToNumber h) \<and> isFinite (StringToNumber m) \<and> isFinite (StringToNumber s))"
    by (simp add: malformedEvent_def sampleEvent_def)
  have base: "baseEvents malformedDashboard = [malformedEvent, sampleEvent ''EVT-0002'' ''00:01:00'' Small]"
    by (simp add: malformedDashboard_def baseEvents_def sampleDashboard_def)
  have other: "bucketIndex 60 (sampleEvent ''EVT-0002'' ''00:01:00'' Small) = Some 1"
    by (simp add: bucketIndex_def sampleEvent_def hmsToSeconds_one_minute clamp_def arrayIndex_def fl_1)
  note inst = malformed_time_is_offset_zero [OF bad, of "baseEvents malformedDashboard" malformedDashboard sampleDateParse]
  have mode: "\<not> truthy (dateTimeFrom malformedDashboard)" "\<not> truthy (dateTimeTo malformedDashboard)"
    "timeRange malformedDashboard \<noteq> Range_all"
    by (simp_all add: malformedDashboard_def sampleDashboard_def truthy_def)
  have z: "hmsToSeconds (time malformedEvent) = Fin 0" using inst by simp
  have mx: "maxSec malformedDashboard = Fin 60"
    by (simp add: maxSec_def base jmax_list_def z sampleEvent_def hmsToSeconds_one_minute)
  have mn: "minSec malformedDashboard = Fin 0"
  proof -
    have "timeRange malformedDashboard = Range_5m" by (simp add: malformedDashboard_def)
    then have secs: "minutesOf (timeRange malformedDashboard) * 60 = 300" by (simp add: minutesOf_def)
    have "fl (- 240) = Fin (- 240)" using fl_of_int [of "- 240"] by simp
    then have "jsub (Fin 60) (Fin 300) = Fin (- 240)" by (simp add: jsub_def)
    then show ?thesis by (simp add: minSec_def mx secs)
  qed
  have kept: "malformedEvent \<in> set (timeFilteredEvents sampleDateParse malformedDashboard)"
    using inst mode by (simp add: base mx mn)
  have tot: "total (minuteData (baseEvents malformedDashboard) ! 0) = 1"
    using inst other by (simp add: base)
  show ?thesis
    by (intro conjI) (rule bad, rule z, rule tot, rule kept)
qed

section \<open>The CSV export read back\<close>

lemma dquote_neq: "dquote \<noteq> CHR '',''" "dquote \<noteq> newline" "newline \<noteq> CHR '',''"
  by (simp_all add: dquote_def newline_def)

lemma csvParse_quoted:
  "csvParse Quoted field row (doubleQuotes x @ dquote # rest) = csvParse QuoteSeen (rev x @ field) row rest"
proof (induction x arbitrary: field)
  case Nil
  show ?case by (simp add: doubleQuotes_def)
next
  case (Cons c cs)
  have IH: "csvParse Quoted f row (doubleQuotes cs @ dquote # rest) = csvParse QuoteSeen (rev cs @ f) row rest" for f
    using Cons.IH by simp
  show ?case
  proof (cases "c = dquote")
    case True
    have "doubleQuotes (c # cs) = dquote # dquote # doubleQuotes cs"
      using True by (simp add: doubleQuotes_def)
    then show ?thesis using True IH [of "dquote # field"] by (simp add: dquote_neq)
  next
    case False
    have "doubleQuotes (c # cs) = c # doubleQuotes cs"
      using False by (simp add: doubleQuotes_def)
    then show ?thesis using False IH [of "c # field"] by simp
  qed
qed

lemma csvParse_field:
  "csvParse FieldStart [] row (quoteField x @ rest) = csvParse QuoteSeen (rev x) row rest"
  using csvParse_quoted [of "[]" row x rest] by (simp add: quoteField_def dquote_neq)

lemma csvParse_after_field:
  "csvParse QuoteSeen (rev x) row [] = [rev (x # row)]"
  "csvParse QuoteSeen (rev x) row (CHR '','' # tl0) = csvParse FieldStart [] (x # row) tl0"
  "csvParse QuoteSeen (rev x) row (newline # tl0) = rev (x # row) # csvParse FieldStart [] [] tl0"
  by (simp_all add: dquote_neq)

lemma csvParse_fields_end:
  "csvParse FieldStart [] row (joinWith '','' (map quoteField (f # fs))) = [rev row @ f # fs]"
proof (induction fs arbitrary: f row)
  case Nil
  have "joinWith '','' (map quoteField [f]) = quoteField f @ []" by simp
  then show ?case by (simp only: csvParse_field csvParse_after_field rev.simps)
next
  case (Cons g gs)
  have "csvParse FieldStart [] row (joinWith '','' (map quoteField (f # g # gs)))
      = csvParse FieldStart [] row (quoteField f @ CHR '','' # joinWith '','' (map quoteField (g # gs)))"
    by simp
  also have "\<dots> = csvParse FieldStart [] (f # row) (joinWith '','' (map quoteField (g # gs)))"
    by (simp only: csvParse_field csvParse_after_field)
  also have "\<dots> = [rev (f # row) @ g # gs]" by (rule Cons.IH)
  finally show ?case by simp
qed

lemma csvParse_fields_newline:
  "csvParse FieldStart [] row (joinWith '','' (map quoteField (f # fs)) @ newline # tl0)
     = (rev row @ f # fs) # csvParse FieldStart [] [] tl0"
proof (induction fs arbitrary: f row)
  case Nil
  have "joinWith '','' (map quoteField [f]) = quoteField f" by simp
  then show ?case by (simp only: csvParse_field csvParse_after_field rev.simps)
next
  case (Cons g gs)
  have "csvParse FieldStart [] row (joinWith '','' (map quoteField (f # g # gs)) @ newline # tl0)
      = csvParse FieldStart [] row (quoteField f @ CHR '','' # (joinWith '','' (map quoteField (g # gs)) @ newline # tl0))"
    by simp
  also have "\<dots> = csvParse FieldStart [] (f # row) (joinWith '','' (map quoteField (g # gs)) @ newline # tl0)"
    by (simp only: csvParse_field csvParse_after_field)
  also have "\<dots> = (rev (f # row) @ g # gs) # csvParse FieldStart [] [] tl0" by (rule Cons.IH)
  finally show ?case by simp
qed

lemma csvFields_Cons: "\<exists>f fs. csvFields ns r = f # fs"
  by (simp add: csvFields_def)

lemma csvParse_rows:
  "csvParse FieldStart [] []
     (joinWith [newline] (map (\<lambda>r. joinWith '','' (map quoteField (csvFields ns r))) (r # rows)))
   = map (csvFields ns) (r # rows)"
proof (induction rows arbitrary: r)
  case Nil
  obtain f fs where "csvFields ns r = f # fs" using csvFields_Cons by blast
  then show ?case using csvParse_fields_end [of "[]" f fs] by simp
next
  case (Cons r' rows)
  obtain f fs where f: "csvFields ns r = f # fs" using csvFields_Cons by blast
  have "csvParse FieldStart [] []
     (joinWith [newline] (map (\<lambda>r. joinWith '','' (map quoteField (csvFields ns r))) (r # r' # rows)))
     = csvParse FieldStart [] [] (joinWith '','' (map quoteField (f # fs)) @ newline #
          joinWith [newline] (map (\<lambda>r. joinWith '','' (map quoteField (csvFields ns r))) (r' # rows)))"
    by (simp add: f)
  also have "\<dots> = (f # fs) # csvParse FieldStart [] []
          (joinWith [newline] (map (\<lambda>r. joinWith '','' (map quoteField (csvFields ns r))) (r' # rows)))"
    using csvParse_fields_newline [of "[]" f fs] by simp
  also have "\<dots> = (f # fs) # map (csvFields ns) (r' # rows)" by (simp only: Cons.IH)
  finally show ?case by (simp add: f)
qed

lemma csvParse_header_end:
  "csvParse FieldStart [] [] (joinWith '','' csvHeader) = [csvHeader]"
  by (simp add: csvHeader_def dquote_def newline_def)

lemma csvParse_header_newline:
  "csvParse FieldStart [] [] (joinWith '','' csvHeader @ newline # tl0)
     = csvHeader # csvParse FieldStart [] [] tl0"
  by (simp add: csvHeader_def dquote_def newline_def)

lemma parseCsv_lines:
  "parseCsv (joinWith [newline] (csvLines ns rows)) = csvHeader # map (csvFields ns) rows"
proof (cases rows)
  case Nil
  then show ?thesis by (simp add: parseCsv_def csvLines_def csvParse_header_end)
next
  case (Cons r rs)
  have "joinWith [newline] (csvLines ns (r # rs)) =
          joinWith '','' csvHeader @ newline #
            joinWith [newline] (map (\<lambda>r. joinWith '','' (map quoteField (csvFields ns r))) (r # rs))"
    by (simp add: csvLines_def)
  then show ?thesis using Cons
    by (simp only: parseCsv_def csvParse_header_newline csvParse_rows)
qed

text \<open>
  Claim C9. The export is the header line \<open>time,size,confidence,source,id\<close> and one
  line for each event of the display-filtered list, in the order of the list; every field
  of an event line stands between double quotes, with each double quote inside it
  doubled. Reading the text back as CSV gives the header and, for each event, its time,
  size, source and id as they were and the string of its confidence; where the platform
  reads a number's string back as that number, the confidence read back is equal to the
  event's.
\<close>

theorem csv_round_trip:
  assumes "\<forall>r\<in>set (filteredEvents dateParse st). StringToNumber (numToString (confidence r)) = confidence r"
  shows "csvLines numToString (filteredEvents dateParse st) =
           ''time,size,confidence,source,id'' #
           map (\<lambda>r. joinWith '','' (map quoteField
                  [time r, sizeName (size_ev r), numToString (confidence r), source r, id_ev r]))
             (filteredEvents dateParse st) \<and>
         parseCsv (downloadCsv numToString dateParse st) =
           csvHeader # map (csvFields numToString) (filteredEvents dateParse st) \<and>
         map (\<lambda>fs. (fs ! 0, fs ! 1, StringToNumber (fs ! 2), fs ! 3, fs ! 4))
             (tl (parseCsv (downloadCsv numToString dateParse st))) =
           map (\<lambda>r. (time r, sizeName (size_ev r), confidence r, source r, id_ev r))
             (filteredEvents dateParse st)"
proof -
  have lines: "csvLines numToString (filteredEvents dateParse st) =
           ''time,size,confidence,source,id'' #
           map (\<lambda>r. joinWith '','' (map quoteField
                  [time r, sizeName (size_ev r), numToString (confidence r), source r, id_ev r]))
             (filteredEvents dateParse st)"
    by (simp add: csvLines_def csvHeader_def csvFields_def)
  have parse: "parseCsv (downloadCsv numToString dateParse st) =
           csvHeader # map (csvFields numToString) (filteredEvents dateParse st)"
    unfolding downloadCsv_def by (rule parseCsv_lines)
  have "map (\<lambda>fs. (fs ! 0, fs ! 1, StringToNumber (fs ! 2), fs ! 3, fs ! 4))
             (map (csvFields numToString) (filteredEvents dateParse st)) =
           map (\<lambda>r. (time r, sizeName (size_ev r), confidence r, source r, id_ev r))
             (filteredEvents dateParse st)"
    using assms by (simp add: csvFields_def)
  with lines parse show ?thesis by simp
qed

lemma jle_seven_nine: "jle (fl (7 / 10)) (fl (9 / 10))"
  by (simp add: fl_seven_tenths fl_nine_tenths)

theorem csv_round_trip_witness:
  "StringToNumber (sampleNumToString (confidence quotedEvent)) = confidence quotedEvent \<and>
   downloadCsv sampleNumToString sampleDateParse (sampleDashboard [quotedEvent]) =
     ''time,size,confidence,source,id'' @ [newline] @
     joinWith '','' [[dquote] @ ''00:01:00'' @ [dquote], [dquote] @ ''Small'' @ [dquote],
                    [dquote] @ ''0.9'' @ [dquote],
                    [dquote] @ ''He said '' @ [dquote, dquote] @ ''rush'' @ [dquote, dquote] @ [dquote],
                    [dquote] @ ''EVT-0001'' @ [dquote]] \<and>
   parseCsv (downloadCsv sampleNumToString sampleDateParse (sampleDashboard [quotedEvent])) =
     [csvHeader, [''00:01:00'', ''Small'', ''0.9'', quotedSource, ''EVT-0001'']]"
proof -
  have conf: "confidence quotedEvent = fl (9 / 10)"
    by (simp add: quotedEvent_def sampleEvent_def)
  have num: "StringToNumber (sampleNumToString (confidence quotedEvent)) = confidence quotedEvent"
    by (simp add: conf sampleNumToString_def StringToNumber_eval)
  have tf: "timeFilteredEvents sampleDateParse (sampleDashboard [quotedEvent]) = [quotedEvent]"
    by (simp add: timeFilteredEvents_def baseEvents_def sampleDashboard_def truthy_def)
  have fe: "filteredEvents sampleDateParse (sampleDashboard [quotedEvent]) = [quotedEvent]"
    using jle_seven_nine by (simp add: filteredEvents_def tf conf) (simp add: sampleDashboard_def)
  have hyp: "\<forall>r\<in>set (filteredEvents sampleDateParse (sampleDashboard [quotedEvent])).
          StringToNumber (sampleNumToString (confidence r)) = confidence r"
    by (simp add: fe num)
  note rt = csv_round_trip [OF hyp]
  have fields: "csvFields sampleNumToString quotedEvent = [''00:01:00'', ''Small'', ''0.9'', quotedSource, ''EVT-0001'']"
    by (simp add: csvFields_def conf sampleNumToString_def) (simp add: quotedEvent_def sampleEvent_def sizeName_def)
  have parse: "parseCsv (downloadCsv sampleNumToString sampleDateParse (sampleDashboard [quotedEvent])) =
     [csvHeader, [''00:01:00'', ''Small'', ''0.9'', quotedSource, ''EVT-0001'']]"
    using rt by (simp add: fe fields)
  have blob: "downloadCsv sampleNumToString sampleDateParse (sampleDashboard [quotedEvent]) =
     ''time,size,confidence,source,id'' @ [newline] @
     joinWith '','' [[dquote] @ ''00:01:00'' @ [dquote], [dquote] @ ''Small'' @ [dquote],
                    [dquote] @ ''0.9'' @ [dquote],
                    [dquote] @ ''He said '' @ [dquote, dquote] @ ''rush'' @ [dquote, dquote] @ [dquote],
                    [dquote] @ ''EVT-0001'' @ [dquote]]"
  proof -
    have "downloadCsv sampleNumToString sampleDateParse (sampleDashboard [quotedEvent]) =
       joinWith [newline] [joinWith '','' csvHeader,
          joinWith '','' (map quoteField (csvFields sampleNumToString quotedEvent))]"
      by (simp add: downloadCsv_def fe csvLines_def)
    then show ?thesis
      unfolding fields
      by (simp add: csvHeader_def quoteField_def doubleQuotes_def quotedSource_def dquote_def)
  qed
  show ?thesis by (intro conjI) (rule num, rule blob, rule parse)
qed

section \<open>The loader\<close>

lemma eventId_0: "eventId 0 = ''EVT-0001''"
  by code_simp

lemmas validate_eval =
  validateRecord_def jsString_def orElse_def sizeOfString_def readTimestamp_def eventId_0






lemma eventId_1: "eventId (Suc 0) = ''EVT-0002''"
  by code_simp

text \<open>
  Claim C6 fails as it is stated at a record whose size is the array \<open>["Small"]\<close>: the
  field is not one of the four strings, yet \<open>String\<close> converts it to \<open>Small\<close> and the
  record is kept.
\<close>

theorem array_size_is_kept:
  "getProp (hd (rawEvents arraySizeFeed)) ''size'' = Some (JArr [JStr ''Small'']) \<and>
   load sampleNumToString (Body arraySizeFeed) =
     Some [\<lparr>id_ev = ''EVT-0001'', time = ''00:00:00'', size_ev = Small, confidence = fl (9 / 10),
            source = ''Cutting Table 1'', timestamp = None\<rparr>]"
  by (simp add: arraySizeFeed_def load_def rawEvents_def validate_eval)

text \<open>A conversion that throws sets the whole feed aside, the records before it too.\<close>

lemma load_throwing_feed: "load sampleNumToString (Body throwingFeed) = None"
  by (simp add: throwingFeed_def load_def rawEvents_def validate_eval eventId_1)

lemma sizeOfString_None:
  "sizeOfString s = None \<longleftrightarrow> s \<notin> {''Small'', ''Medium'', ''Large'', ''XL''}"
  by (simp add: sizeOfString_def)

lemma sizeOfString_Some: "sizeOfString s = Some sz \<Longrightarrow> s = sizeName sz"
  by (auto simp: sizeOfString_def sizeName_def split: if_splits)

lemma sizeName_in: "sizeName sz \<in> {''Small'', ''Medium'', ''Large'', ''XL''}"
  by (cases sz) (simp_all add: sizeName_def)

lemma validateRecord_size:
  assumes "validateRecord ns i e = Inr r"
  shows "(toStr ns (orElse (getProp e ''size'') (JStr [])) \<notin> {''Small'', ''Medium'', ''Large'', ''XL''} \<longrightarrow> r = None) \<and>
         (toStr ns (orElse (getProp e ''size'') (JStr [])) \<in> {''Small'', ''Medium'', ''Large'', ''XL''} \<longrightarrow>
            (\<exists>ev. r = Some ev \<and> sizeName (size_ev ev) = toStr ns (orElse (getProp e ''size'') (JStr []))))"
proof -
  from assms have c: "jsString ns (orElse (getProp e ''size'') (JStr [])) = Inr (toStr ns (orElse (getProp e ''size'') (JStr [])))"
    by (auto simp: validateRecord_def jsString_def split: sum.splits if_splits)
  show ?thesis
  proof (cases "sizeOfString (toStr ns (orElse (getProp e ''size'') (JStr [])))")
    case None
    then have "r = None" using assms c by (simp add: validateRecord_def)
    moreover from None have "toStr ns (orElse (getProp e ''size'') (JStr [])) \<notin> {''Small'', ''Medium'', ''Large'', ''XL''}"
      by (rule sizeOfString_None [THEN iffD1])
    ultimately show ?thesis by blast
  next
    case (Some sz)
    then have eq: "toStr ns (orElse (getProp e ''size'') (JStr [])) = sizeName sz" by (rule sizeOfString_Some)
    from assms c Some obtain ev where ev: "r = Some ev" "size_ev ev = sz"
      by (auto simp: validateRecord_def split: sum.splits)
    have "\<exists>ev. r = Some ev \<and> sizeName (size_ev ev) = toStr ns (orElse (getProp e ''size'') (JStr []))"
      using ev eq by simp
    moreover have "toStr ns (orElse (getProp e ''size'') (JStr [])) \<in> {''Small'', ''Medium'', ''Large'', ''XL''}"
      unfolding eq by (rule sizeName_in)
    ultimately show ?thesis by blast
  qed
qed

lemma mapRecords_nth:
  "mapRecords ns k es = Inr rs \<Longrightarrow>
   length rs = length es \<and> (\<forall>i<length es. validateRecord ns (k + i) (es ! i) = Inr (rs ! i))"
proof (induction es arbitrary: k rs)
  case Nil
  then show ?case by simp
next
  case (Cons e es)
  from Cons.prems obtain r rs' where r: "validateRecord ns k e = Inr r"
    and rs': "mapRecords ns (k + 1) es = Inr rs'" and rs: "rs = r # rs'"
    by (auto split: sum.splits)
  from Cons.IH [OF rs'] have len: "length rs' = length es"
    and nth: "\<forall>i<length es. validateRecord ns (k + 1 + i) (es ! i) = Inr (rs' ! i)" by simp_all
  have "validateRecord ns (k + i) ((e # es) ! i) = Inr (rs ! i)" if "i < length (e # es)" for i
  proof (cases i)
    case 0 then show ?thesis using r rs by simp
  next
    case (Suc j)
    with that nth rs show ?thesis by simp
  qed
  then show ?case using len rs by simp
qed

lemma timeFilteredEvents_subset: "set (timeFilteredEvents dateParse st) \<subseteq> set (baseEvents st)"
  by (auto simp: timeFilteredEvents_def)

lemma filteredEvents_subset: "set (filteredEvents dateParse st) \<subseteq> set (timeFilteredEvents dateParse st)"
  by (auto simp: filteredEvents_def)

lemma baseEvents_loaded:
  "completed st \<Longrightarrow> eventsFromFile st = Some evs \<Longrightarrow> evs \<noteq> [] \<Longrightarrow> baseEvents st = evs"
  by (simp add: baseEvents_def)

lemma mapRecords_kept_sizes:
  "mapRecords ns k es = Inr rs \<Longrightarrow>
   map (\<lambda>ev. sizeName (size_ev ev)) (concat (map (\<lambda>r. case r of Some ev \<Rightarrow> [ev] | None \<Rightarrow> []) rs)) =
   filter (\<lambda>s. s \<in> {''Small'', ''Medium'', ''Large'', ''XL''})
     (map (\<lambda>e. toStr ns (orElse (getProp e ''size'') (JStr []))) es)"
proof (induction es arbitrary: k rs)
  case Nil
  then show ?case by simp
next
  case (Cons e es)
  from Cons.prems obtain r rs' where r: "validateRecord ns k e = Inr r"
    and rs': "mapRecords ns (k + 1) es = Inr rs'" and rs: "rs = r # rs'"
    by (auto split: sum.splits)
  note IH = Cons.IH [OF rs']
  note sz = validateRecord_size [OF r]
  show ?case
  proof (cases "toStr ns (orElse (getProp e ''size'') (JStr [])) \<in> {''Small'', ''Medium'', ''Large'', ''XL''}")
    case True
    with sz obtain ev where "r = Some ev"
      "sizeName (size_ev ev) = toStr ns (orElse (getProp e ''size'') (JStr []))" by blast
    with True IH rs show ?thesis by simp
  next
    case False
    with sz have "r = None" by blast
    with False IH rs show ?thesis by simp
  qed
qed

text \<open>
  Claim C6, amended. A record is dropped exactly when its size field, converted to a
  string (the empty string for a missing or falsy field), is not one of \<open>Small\<close>,
  \<open>Medium\<close>, \<open>Large\<close>, \<open>XL\<close>. When no conversion of a field throws, the validator gives
  one result for each record, nothing for a record that is dropped and one event, of the
  size the record names, for every other record; the events kept are those, in their
  order, so their sizes are the sizes of the feed that are among the four. The loader
  stores them unless there are none; the base events of the dashboard, once the analysis
  has completed, are then the events kept, or the synthetic events when none is kept, and
  every event of the time-filtered list, of the display-filtered list and of the rows of
  the exported CSV is a base event; the buckets count no more events than the
  time-filtered list holds.
\<close>

theorem unknown_size_is_dropped:
  assumes "mapRecords numToString 0 (rawEvents j) = Inr rs"
    and "kept = concat (map (\<lambda>r. case r of Some ev \<Rightarrow> [ev] | None \<Rightarrow> []) rs)"
    and "eventsFromFile st = load numToString (Body j)"
  shows "length rs = length (rawEvents j) \<and>
         (\<forall>i<length rs.
            (toStr numToString (orElse (getProp (rawEvents j ! i) ''size'') (JStr []))
               \<notin> {''Small'', ''Medium'', ''Large'', ''XL''} \<longrightarrow> rs ! i = None) \<and>
            (toStr numToString (orElse (getProp (rawEvents j ! i) ''size'') (JStr []))
               \<in> {''Small'', ''Medium'', ''Large'', ''XL''} \<longrightarrow>
               (\<exists>ev. rs ! i = Some ev \<and> validateRecord numToString i (rawEvents j ! i) = Inr (Some ev) \<and>
                     sizeName (size_ev ev) =
                       toStr numToString (orElse (getProp (rawEvents j ! i) ''size'') (JStr []))))) \<and>
         map (\<lambda>ev. sizeName (size_ev ev)) kept =
           filter (\<lambda>s. s \<in> {''Small'', ''Medium'', ''Large'', ''XL''})
             (map (\<lambda>e. toStr numToString (orElse (getProp e ''size'') (JStr []))) (rawEvents j)) \<and>
         load numToString (Body j) = (if kept = [] then None else Some kept) \<and>
         baseEvents st =
           (if \<not> completed st then []
            else if kept = []
            then syntheticEvents ((if videoName st = [] then ''demo'' else videoName st) @ '':events'')
            else kept) \<and>
         set (timeFilteredEvents dateParse st) \<subseteq> set (baseEvents st) \<and>
         sum_total (totals (minuteData (timeFilteredEvents dateParse st)))
           \<le> length (timeFilteredEvents dateParse st) \<and>
         set (filteredEvents dateParse st) \<subseteq> set (baseEvents st) \<and>
         parseCsv (downloadCsv numToString dateParse st) =
           csvHeader # map (csvFields numToString) (filteredEvents dateParse st)"
proof -
  note rs = assms(1)
  from mapRecords_nth [OF rs] have len: "length rs = length (rawEvents j)"
    and nth: "\<forall>i<length (rawEvents j). validateRecord numToString i (rawEvents j ! i) = Inr (rs ! i)"
    by simp_all
  have each: "\<forall>i<length rs.
              (toStr numToString (orElse (getProp (rawEvents j ! i) ''size'') (JStr []))
                 \<notin> {''Small'', ''Medium'', ''Large'', ''XL''} \<longrightarrow> rs ! i = None) \<and>
              (toStr numToString (orElse (getProp (rawEvents j ! i) ''size'') (JStr []))
                 \<in> {''Small'', ''Medium'', ''Large'', ''XL''} \<longrightarrow>
                 (\<exists>ev. rs ! i = Some ev \<and> validateRecord numToString i (rawEvents j ! i) = Inr (Some ev) \<and>
                       sizeName (size_ev ev) =
                         toStr numToString (orElse (getProp (rawEvents j ! i) ''size'') (JStr []))))"
  proof (intro allI impI)
    fix i assume "i < length rs"
    with len nth have v: "validateRecord numToString i (rawEvents j ! i) = Inr (rs ! i)" by simp
    from validateRecord_size [OF v] v show
      "(toStr numToString (orElse (getProp (rawEvents j ! i) ''size'') (JStr []))
                 \<notin> {''Small'', ''Medium'', ''Large'', ''XL''} \<longrightarrow> rs ! i = None) \<and>
              (toStr numToString (orElse (getProp (rawEvents j ! i) ''size'') (JStr []))
                 \<in> {''Small'', ''Medium'', ''Large'', ''XL''} \<longrightarrow>
                 (\<exists>ev. rs ! i = Some ev \<and> validateRecord numToString i (rawEvents j ! i) = Inr (Some ev) \<and>
                       sizeName (size_ev ev) =
                         toStr numToString (orElse (getProp (rawEvents j ! i) ''size'') (JStr []))))"
      by auto
  qed
  have sizes: "map (\<lambda>ev. sizeName (size_ev ev)) kept =
           filter (\<lambda>s. s \<in> {''Small'', ''Medium'', ''Large'', ''XL''})
             (map (\<lambda>e. toStr numToString (orElse (getProp e ''size'') (JStr []))) (rawEvents j))"
    unfolding assms(2) by (rule mapRecords_kept_sizes [OF rs])
  have ld: "load numToString (Body j) = (if kept = [] then None else Some kept)"
    using rs assms(2) by (simp add: load_def Let_def)
  have base: "baseEvents st =
           (if \<not> completed st then []
            else if kept = []
            then syntheticEvents ((if videoName st = [] then ''demo'' else videoName st) @ '':events'')
            else kept)"
    using assms(3) ld by (simp add: baseEvents_def)
  have tf: "set (timeFilteredEvents dateParse st) \<subseteq> set (baseEvents st)"
    by (rule timeFilteredEvents_subset)
  have fe: "set (filteredEvents dateParse st) \<subseteq> set (baseEvents st)"
    using filteredEvents_subset [of dateParse st] tf by blast
  have cnt: "sum_total (totals (minuteData (timeFilteredEvents dateParse st)))
             \<le> length (timeFilteredEvents dateParse st)"
    by (simp add: totals_sum minuteData_sum)
  have csv: "parseCsv (downloadCsv numToString dateParse st) =
             csvHeader # map (csvFields numToString) (filteredEvents dateParse st)"
    unfolding downloadCsv_def by (rule parseCsv_lines)
  show ?thesis
    by (intro conjI) (rule len, rule each, rule sizes, rule ld, rule base, rule tf, rule cnt, rule fe, rule csv)
qed

theorem unknown_size_is_dropped_witness:
  "mapRecords sampleNumToString 0 (rawEvents hugeFeed) = Inr [None] \<and>
   completed (loadedDashboard hugeFeed) \<and>
   eventsFromFile (loadedDashboard hugeFeed) = load sampleNumToString (Body hugeFeed) \<and>
   load sampleNumToString (Body hugeFeed) = None \<and>
   baseEvents (loadedDashboard hugeFeed) = syntheticEvents ''cutting-table.mp4:events'' \<and>
   mapRecords sampleNumToString 0 (rawEvents mixedFeed) =
     Inr [None, Some \<lparr>id_ev = ''EVT-0002'', time = ''00:00:00'', size_ev = Small,
                       confidence = Fin (8106479329266893 / 9007199254740992),
                       source = ''Cutting Table 1'', timestamp = None\<rparr>] \<and>
   completed (loadedDashboard mixedFeed) \<and>
   eventsFromFile (loadedDashboard mixedFeed) = load sampleNumToString (Body mixedFeed) \<and>
   load sampleNumToString (Body mixedFeed) =
     Some [\<lparr>id_ev = ''EVT-0002'', time = ''00:00:00'', size_ev = Small,
            confidence = Fin (8106479329266893 / 9007199254740992),
            source = ''Cutting Table 1'', timestamp = None\<rparr>] \<and>
   baseEvents (loadedDashboard mixedFeed) =
     [\<lparr>id_ev = ''EVT-0002'', time = ''00:00:00'', size_ev = Small,
       confidence = Fin (8106479329266893 / 9007199254740992),
       source = ''Cutting Table 1'', timestamp = None\<rparr>] \<and>
   set (filteredEvents sampleDateParse (loadedDashboard mixedFeed)) \<subseteq>
     set [\<lparr>id_ev = ''EVT-0002'', time = ''00:00:00'', size_ev = Small,
           confidence = Fin (8106479329266893 / 9007199254740992),
           source = ''Cutting Table 1'', timestamp = None\<rparr>]"
proof -
  let ?ev = "\<lparr>id_ev = ''EVT-0002'', time = ''00:00:00'', size_ev = Small,
            confidence = Fin (8106479329266893 / 9007199254740992),
            source = ''Cutting Table 1'', timestamp = None\<rparr>"
  have m1: "mapRecords sampleNumToString 0 (rawEvents hugeFeed) = Inr [None]"
    by (simp add: hugeFeed_def rawEvents_def validate_eval)
  have c1: "completed (loadedDashboard hugeFeed)"
    by (simp add: loadedDashboard_def sampleDashboard_def)
  have f1: "eventsFromFile (loadedDashboard hugeFeed) = load sampleNumToString (Body hugeFeed)"
    by (simp add: loadedDashboard_def)
  have v1: "videoName (loadedDashboard hugeFeed) = ''cutting-table.mp4''"
    by (simp add: loadedDashboard_def sampleDashboard_def)
  note t1 = unknown_size_is_dropped [OF m1 refl f1, of sampleDateParse]
  have l1: "load sampleNumToString (Body hugeFeed) = None"
    using t1 [THEN conjunct2, THEN conjunct2, THEN conjunct2, THEN conjunct1] by simp
  have b1: "baseEvents (loadedDashboard hugeFeed) = syntheticEvents ''cutting-table.mp4:events''"
    using t1 [THEN conjunct2, THEN conjunct2, THEN conjunct2, THEN conjunct2, THEN conjunct1]
    by (simp add: v1 c1)
  have m2: "mapRecords sampleNumToString 0 (rawEvents mixedFeed) = Inr [None, Some ?ev]"
    by (simp add: mixedFeed_def rawEvents_def validate_eval eventId_1 fl_nine_tenths)
  have c2: "completed (loadedDashboard mixedFeed)"
    by (simp add: loadedDashboard_def sampleDashboard_def)
  have f2: "eventsFromFile (loadedDashboard mixedFeed) = load sampleNumToString (Body mixedFeed)"
    by (simp add: loadedDashboard_def)
  note t2 = unknown_size_is_dropped [OF m2 refl f2, of sampleDateParse]
  have l2: "load sampleNumToString (Body mixedFeed) = Some [?ev]"
    using t2 [THEN conjunct2, THEN conjunct2, THEN conjunct2, THEN conjunct1] by simp
  have b2: "baseEvents (loadedDashboard mixedFeed) = [?ev]"
    using t2 [THEN conjunct2, THEN conjunct2, THEN conjunct2, THEN conjunct2, THEN conjunct1]
    by (simp add: c2)
  have s2: "set (filteredEvents sampleDateParse (loadedDashboard mixedFeed)) \<subseteq> set [?ev]"
    using t2 [THEN conjunct2, THEN conjunct2, THEN conjunct2, THEN conjunct2, THEN conjunct2,
      THEN conjunct2, THEN conjunct2, THEN conjunct1]
    unfolding b2 .
  show ?thesis
    by (intro conjI) (rule m1, rule c1, rule f1, rule l1, rule b1, rule m2, rule c2, rule f2, rule l2,
      rule b2, rule s2)
qed

section \<open>The synthetic events, event by event\<close>

lemma rngState_add: "rngState (rngState t a) b = rngState t (a + b)"
  by (induction a arbitrary: t) simp_all

lemma rngState_2: "fst (mulberry32 (fst (mulberry32 t))) = rngState t 2"
  by (simp add: numeral_2_eq_2)

lemma genEvents_unfold:
  "genEvents n i rng out = out @ map (\<lambda>j. loopEvent n j (rngState rng (2 * (j - i)))) [i..<n]"
proof (induction n i rng out rule: genEvents.induct)
  case (1 n i rng out)
  show ?case
  proof (cases "i < n")
    case False
    then show ?thesis by (simp add: genEvents.simps [of n i])
  next
    case True
    have step: "genEvents n i rng out =
        genEvents n (i + 1) (rngState rng 2) (out @ [loopEvent n i rng])"
      using True by (simp add: genEvents.simps [of n i] Let_def loopEvent_def rngState_2)
    have IH: "genEvents n (i + 1) (rngState rng 2) (out @ [loopEvent n i rng]) =
        (out @ [loopEvent n i rng]) @
          map (\<lambda>j. loopEvent n j (rngState (rngState rng 2) (2 * (j - (i + 1))))) [i + 1..<n]"
      using "1.IH" [OF True refl refl refl refl refl]
      by (simp add: Let_def loopEvent_def rngState_2)
    have "map (\<lambda>j. loopEvent n j (rngState (rngState rng 2) (2 * (j - (i + 1))))) [i + 1..<n] =
          map (\<lambda>j. loopEvent n j (rngState rng (2 * (j - i)))) [i + 1..<n]"
    proof (rule map_cong [OF refl])
      fix j assume "j \<in> set [i + 1..<n]"
      then have "2 + 2 * (j - (i + 1)) = 2 * (j - i)" by auto
      then show "loopEvent n j (rngState (rngState rng 2) (2 * (j - (i + 1)))) =
                 loopEvent n j (rngState rng (2 * (j - i)))"
        by (simp add: rngState_add)
    qed
    moreover have "[i..<n] = i # [i + 1..<n]" using True by (simp add: upt_conv_Cons)
    ultimately show ?thesis using step IH by simp
  qed
qed

lemma syntheticEvents_nth:
  assumes "i < 220"
  shows "syntheticEvents seed ! i = loopEvent 220 i (rngState (seedFromString seed) (2 * i))"
  using assms by (simp add: syntheticEvents_def genEvents_unfold)

lemma baseEvents_synthetic:
  "completed st \<Longrightarrow> eventsFromFile st = None \<or> eventsFromFile st = Some [] \<Longrightarrow>
   baseEvents st = syntheticEvents ((if videoName st = [] then ''demo'' else videoName st) @ '':events'')"
  by (auto simp: baseEvents_def)

lemma mulberry32_fst: "fst (mulberry32 t) = t + 0x6D2B79F5"
  by (simp add: mulberry32_def Let_def)

lemma weights_value:
  "weights = [Fin (7926335344172073 / 36028797018963968), Fin (3422735716801577 / 9007199254740992), Fin (5584463537939415 / 18014398509481984), Fin (3242591731706757 / 36028797018963968)]"
  unfolding weights_def
  using fl_eval [of "- 3" "22 / 100"] fl_eval [of "- 2" "38 / 100"] fl_eval [of "- 2" "31 / 100"]
    fl_eval [of "- 4" "9 / 100"]
  by (simp add: fl_eval_simps)

lemma acc_1: "jadd (Fin 0) (Fin (7926335344172073 / 36028797018963968)) = Fin (7926335344172073 / 36028797018963968)"
  using fl_eval [of "- 3" "7926335344172073 / 36028797018963968"] by (simp add: fl_eval_simps)

lemma acc_2: "jadd (Fin (7926335344172073 / 36028797018963968)) (Fin (3422735716801577 / 9007199254740992)) = Fin (5404319552844595 / 9007199254740992)"
  using fl_eval [of "- 1" "21617278211378381 / 36028797018963968"] by (simp add: fl_eval_simps)

lemma acc_3: "jadd (Fin (5404319552844595 / 9007199254740992)) (Fin (5584463537939415 / 18014398509481984)) = Fin (4098275660907151 / 4503599627370496)"
  using fl_eval [of "- 1" "16393102643628605 / 18014398509481984"] by (simp add: fl_eval_simps)

lemma rngState_closed: "rngState t k = t + k * 0x6D2B79F5"
  by (induction k arbitrary: t) (simp_all add: mulberry32_fst)

lemma draw_range: "\<exists>m. m < 4294967296 \<and> draw s k = Fin (of_nat m / 4294967296)"
proof -
  have "unat w < 4294967296" for w :: "32 word"
  proof -
    have "unat w < 2 ^ LENGTH(32)" by (rule unsigned_less)
    then show ?thesis by simp
  qed
  then show ?thesis unfolding draw_def mulberry32_def Let_def snd_conv by blast
qed

lemma acc_4: "jadd (Fin (4098275660907151 / 4503599627370496)) (Fin (3242591731706757 / 36028797018963968)) = Fin (9007199254740991 / 9007199254740992)"
  using fl_eval [of "- 1" "36028797018963965 / 36028797018963968"] by (simp add: fl_eval_simps)

lemma pickSize_thresholds:
  "pickSize (Fin x) =
     (if x \<le> 7926335344172073 / 36028797018963968 then Small
      else if x \<le> 5404319552844595 / 9007199254740992 then Medium
      else if x \<le> 4098275660907151 / 4503599627370496 then Large
      else if x \<le> 9007199254740991 / 9007199254740992 then XL else Medium)"
  unfolding pickSize_def sizes_def weights_value
  by (auto simp add: acc_1 acc_2 acc_3 acc_4 simp del: jadd.simps)

text \<open>Rounding moves a number in the normal range by at most one part in \<open>2^53\<close>.\<close>

lemma round_half_even_near: "\<bar>of_int (round_half_even r) - r\<bar> \<le> 1 / 2"
proof -
  have "of_int \<lfloor>r\<rfloor> \<le> r" "r < of_int \<lfloor>r\<rfloor> + 1" by linarith+
  then show ?thesis by (auto simp: round_half_even_def Let_def abs_le_iff)
qed

lemma fl_near:
  assumes "pow2 (- 1022) \<le> q" "q < pow2 1023"
  shows "\<exists>a. fl q = Fin a \<and> \<bar>a - q\<bar> \<le> q / 9007199254740992"
proof -
  have q: "0 < q" using pow2_pos [of "- 1022"] assms(1) by simp
  define L where "L = floor_log2 q"
  from floor_log2_bounds [OF q] have b: "pow2 L \<le> q" "q < pow2 (L + 1)" by (simp_all add: L_def)
  have "pow2 L < pow2 1023" using b(1) assms(2) by simp
  then have hi: "L \<le> 1022" using pow2_less_imp [of L 1023] by simp
  have "pow2 (- 1022) < pow2 (L + 1)" using b(2) assms(1) by simp
  then have lo: "- 1022 \<le> L" using pow2_less_imp [of "- 1022" "L + 1"] by simp
  define p where "p = pow2 (L - 52)"
  have p: "0 < p" by (simp add: p_def pow2_pos)
  have "pow2 (52 + (L - 52)) = pow2 52 * pow2 (L - 52)" by (rule pow2_add)
  moreover have "52 + (L - 52) = L" by arith
  ultimately have "pow2 L = pow2 52 * p" by (simp add: p_def)
  then have pL: "pow2 L = 4503599627370496 * p" by (simp add: pow2_def)
  define a where "a = of_int (round_half_even (q / p)) * p"
  have fl: "fl q = Fin a" using fl_eval [OF b lo hi] by (simp add: a_def p_def)
  have "\<bar>a - q\<bar> = \<bar>of_int (round_half_even (q / p)) - q / p\<bar> * p"
  proof -
    have "a - q = (of_int (round_half_even (q / p)) - q / p) * p"
      using p by (simp add: a_def field_simps)
    then show ?thesis using p by (simp add: abs_mult)
  qed
  also have "\<dots> \<le> (1 / 2) * p"
    using round_half_even_near [of "q / p"] p by (intro mult_right_mono) simp_all
  also have "\<dots> \<le> q / 9007199254740992" using b(1) pL by simp
  finally show ?thesis using fl by blast
qed

text \<open>
  The offset of event \<open>i\<close>. Off the multiples of 11 the exact quotient \<open>i * 3600 / 220\<close>
  is at least \<open>1/11\<close> away from every integer, far more than the two roundings can move
  it; at the multiples of 11 the two roundings are evaluated.
\<close>

lemma eventOffset_between:
  assumes "i < 220" "\<not> 11 dvd i"
  shows "eventOffset 220 i = Fin (of_nat (i * 3600 div 220))"
proof -
  define n where "n = i * 180 div 11"
  define r where "r = i * 180 mod 11"
  have n: "i * 3600 div 220 = n"
  proof -
    have "i * 3600 = 20 * (i * 180)" "(220::nat) = 20 * 11" by simp_all
    then have "i * 3600 div 220 = (20 * (i * 180)) div (20 * 11)" by simp
    then show ?thesis unfolding n_def by (simp only: div_mult_mult1)
  qed
  have "\<not> 11 dvd i * 180"
  proof
    assume "11 dvd i * 180"
    then have "11 dvd i * 180 * 3" by (rule dvd_mult2)
    moreover have "i * 180 * 3 = 11 * (49 * i) + i" by simp
    ultimately have "11 dvd 11 * (49 * i) + i" by simp
    moreover have "11 dvd 11 * (49 * i)" by (rule dvd_triv_left)
    ultimately have "11 dvd i" by (simp only: dvd_add_right_iff)
    with assms(2) show False ..
  qed
  then have r0: "0 < r" by (auto simp: r_def dvd_eq_mod_eq_0)
  have r1: "r < 11" by (simp add: r_def)
  have eq: "i * 180 = 11 * n + r" by (simp add: n_def r_def)
  define q where "q = (of_nat i :: rat) / 220"
  have i0: "0 < i" using assms(2) by (cases i) simp_all
  have qx: "3600 * q = of_nat n + of_nat r / 11"
  proof -
    have "3600 * q = of_nat (i * 180) / 11" by (simp add: q_def)
    also have "\<dots> = of_nat (11 * n + r) / 11" by (simp only: eq)
    also have "\<dots> = of_nat n + of_nat r / 11" by (simp add: add_divide_distrib)
    finally show ?thesis .
  qed
  have ql: "1 / 220 \<le> q" using i0 by (simp add: q_def)
  have qh: "q < 1" using assms(1) by (simp add: q_def)
  have "pow2 (- 1022) \<le> 1 / 220" by (simp add: pow2_def)
  moreover have "(1::rat) < pow2 1023" by (simp add: pow2_def)
  ultimately have "pow2 (- 1022) \<le> q" "q < pow2 1023" using ql qh by simp_all
  from fl_near [OF this] obtain a where a: "fl q = Fin a" "\<bar>a - q\<bar> \<le> q / 9007199254740992"
    by blast
  have a1: "a - q \<le> q / 9007199254740992" and a2: "q - a \<le> q / 9007199254740992"
    using a(2) by linarith+
  have al: "1 / 440 \<le> a" and ah: "a < 2" using a1 a2 ql qh by linarith+
  have "pow2 (- 1022) \<le> 1" by (simp add: pow2_def)
  moreover have "(7200::rat) < pow2 1023" by (simp add: pow2_def)
  ultimately have "pow2 (- 1022) \<le> a * 3600" "a * 3600 < pow2 1023" using al ah by simp_all
  from fl_near [OF this] obtain b where b: "fl (a * 3600) = Fin b"
    "\<bar>b - a * 3600\<bar> \<le> a * 3600 / 9007199254740992" by blast
  have rl: "(1::rat) \<le> of_nat r" using r0 by simp
  have rh: "(of_nat r :: rat) \<le> 10" using r1 by simp
  have b1: "b - a * 3600 \<le> a * 3600 / 9007199254740992"
    and b2: "a * 3600 - b \<le> a * 3600 / 9007199254740992"
    using b(2) by linarith+
  have lo: "of_nat n \<le> b" using a1 a2 b1 b2 qx ql qh rl by linarith
  have hi: "b < of_nat n + 1" using a1 a2 b1 b2 qx ql qh rh by linarith
  have "\<lfloor>b\<rfloor> = int n" using lo hi by (simp add: floor_unique)
  then have "jfloor (Fin b) = Fin (of_nat n)" by simp
  moreover have "eventOffset 220 i = jfloor (Fin b)"
    using a(1) b(1) by (simp add: eventOffset_def q_def)
  ultimately show ?thesis by (simp add: n)
qed

lemma eventOffset_0: "eventOffset 220 0 = Fin 0"
  by (simp add: eventOffset_def fl_0)

lemma eventOffset_11: "eventOffset 220 11 = Fin 180"
proof -
  have d: "jdiv (Fin 11) (Fin 220) = Fin (3602879701896397 / 72057594037927936)"
    using fl_eval [of "- 5" "1 / 20"] by (simp add: fl_eval_simps)
  have m: "jmul (Fin (3602879701896397 / 72057594037927936)) (Fin 3600) = Fin (180)"
    using fl_eval [of "7" "810647932926689325 / 4503599627370496"] by (simp add: fl_eval_simps)
  show ?thesis unfolding eventOffset_def
    by (simp add: d m floor_rat_divide_numeral del: jmul.simps jdiv.simps)
qed

lemma eventOffset_22: "eventOffset 220 22 = Fin 360"
proof -
  have d: "jdiv (Fin 22) (Fin 220) = Fin (3602879701896397 / 36028797018963968)"
    using fl_eval [of "- 4" "1 / 10"] by (simp add: fl_eval_simps)
  have m: "jmul (Fin (3602879701896397 / 36028797018963968)) (Fin 3600) = Fin (360)"
    using fl_eval [of "8" "810647932926689325 / 2251799813685248"] by (simp add: fl_eval_simps)
  show ?thesis unfolding eventOffset_def
    by (simp add: d m floor_rat_divide_numeral del: jmul.simps jdiv.simps)
qed

lemma eventOffset_33: "eventOffset 220 33 = Fin 540"
proof -
  have d: "jdiv (Fin 33) (Fin 220) = Fin (5404319552844595 / 36028797018963968)"
    using fl_eval [of "- 3" "3 / 20"] by (simp add: fl_eval_simps)
  have m: "jmul (Fin (5404319552844595 / 36028797018963968)) (Fin 3600) = Fin (540)"
    using fl_eval [of "9" "1215971899390033875 / 2251799813685248"] by (simp add: fl_eval_simps)
  show ?thesis unfolding eventOffset_def
    by (simp add: d m floor_rat_divide_numeral del: jmul.simps jdiv.simps)
qed

lemma eventOffset_44: "eventOffset 220 44 = Fin 720"
proof -
  have d: "jdiv (Fin 44) (Fin 220) = Fin (3602879701896397 / 18014398509481984)"
    using fl_eval [of "- 3" "1 / 5"] by (simp add: fl_eval_simps)
  have m: "jmul (Fin (3602879701896397 / 18014398509481984)) (Fin 3600) = Fin (720)"
    using fl_eval [of "9" "810647932926689325 / 1125899906842624"] by (simp add: fl_eval_simps)
  show ?thesis unfolding eventOffset_def
    by (simp add: d m floor_rat_divide_numeral del: jmul.simps jdiv.simps)
qed

lemma eventOffset_55: "eventOffset 220 55 = Fin 900"
proof -
  have d: "jdiv (Fin 55) (Fin 220) = Fin (1 / 4)"
    using fl_eval [of "- 2" "1 / 4"] by (simp add: fl_eval_simps)
  have m: "jmul (Fin (1 / 4)) (Fin 3600) = Fin (900)"
    using fl_eval [of "9" "900"] by (simp add: fl_eval_simps)
  show ?thesis unfolding eventOffset_def
    by (simp add: d m floor_rat_divide_numeral del: jmul.simps jdiv.simps)
qed

lemma eventOffset_66: "eventOffset 220 66 = Fin 1080"
proof -
  have d: "jdiv (Fin 66) (Fin 220) = Fin (5404319552844595 / 18014398509481984)"
    using fl_eval [of "- 2" "3 / 10"] by (simp add: fl_eval_simps)
  have m: "jmul (Fin (5404319552844595 / 18014398509481984)) (Fin 3600) = Fin (1080)"
    using fl_eval [of "10" "1215971899390033875 / 1125899906842624"] by (simp add: fl_eval_simps)
  show ?thesis unfolding eventOffset_def
    by (simp add: d m floor_rat_divide_numeral del: jmul.simps jdiv.simps)
qed

lemma eventOffset_77: "eventOffset 220 77 = Fin 1260"
proof -
  have d: "jdiv (Fin 77) (Fin 220) = Fin (3152519739159347 / 9007199254740992)"
    using fl_eval [of "- 2" "7 / 20"] by (simp add: fl_eval_simps)
  have m: "jmul (Fin (3152519739159347 / 9007199254740992)) (Fin 3600) = Fin (1260)"
    using fl_eval [of "10" "709316941310853075 / 562949953421312"] by (simp add: fl_eval_simps)
  show ?thesis unfolding eventOffset_def
    by (simp add: d m floor_rat_divide_numeral del: jmul.simps jdiv.simps)
qed

lemma eventOffset_88: "eventOffset 220 88 = Fin 1440"
proof -
  have d: "jdiv (Fin 88) (Fin 220) = Fin (3602879701896397 / 9007199254740992)"
    using fl_eval [of "- 2" "2 / 5"] by (simp add: fl_eval_simps)
  have m: "jmul (Fin (3602879701896397 / 9007199254740992)) (Fin 3600) = Fin (1440)"
    using fl_eval [of "10" "810647932926689325 / 562949953421312"] by (simp add: fl_eval_simps)
  show ?thesis unfolding eventOffset_def
    by (simp add: d m floor_rat_divide_numeral del: jmul.simps jdiv.simps)
qed

lemma eventOffset_99: "eventOffset 220 99 = Fin 1620"
proof -
  have d: "jdiv (Fin 99) (Fin 220) = Fin (8106479329266893 / 18014398509481984)"
    using fl_eval [of "- 2" "9 / 20"] by (simp add: fl_eval_simps)
  have m: "jmul (Fin (8106479329266893 / 18014398509481984)) (Fin 3600) = Fin (1620)"
    using fl_eval [of "10" "1823957849085050925 / 1125899906842624"] by (simp add: fl_eval_simps)
  show ?thesis unfolding eventOffset_def
    by (simp add: d m floor_rat_divide_numeral del: jmul.simps jdiv.simps)
qed

lemma eventOffset_110: "eventOffset 220 110 = Fin 1800"
proof -
  have d: "jdiv (Fin 110) (Fin 220) = Fin (1 / 2)"
    using fl_eval [of "- 1" "1 / 2"] by (simp add: fl_eval_simps)
  have m: "jmul (Fin (1 / 2)) (Fin 3600) = Fin (1800)"
    using fl_eval [of "10" "1800"] by (simp add: fl_eval_simps)
  show ?thesis unfolding eventOffset_def
    by (simp add: d m floor_rat_divide_numeral del: jmul.simps jdiv.simps)
qed

lemma eventOffset_121: "eventOffset 220 121 = Fin 1980"
proof -
  have d: "jdiv (Fin 121) (Fin 220) = Fin (2476979795053773 / 4503599627370496)"
    using fl_eval [of "- 1" "11 / 20"] by (simp add: fl_eval_simps)
  have m: "jmul (Fin (2476979795053773 / 4503599627370496)) (Fin 3600) = Fin (8708132091985921 / 4398046511104)"
    using fl_eval [of "10" "557320453887098925 / 281474976710656"] by (simp add: fl_eval_simps)
  show ?thesis unfolding eventOffset_def
    by (simp add: d m floor_rat_divide_numeral del: jmul.simps jdiv.simps)
qed

lemma eventOffset_132: "eventOffset 220 132 = Fin 2160"
proof -
  have d: "jdiv (Fin 132) (Fin 220) = Fin (5404319552844595 / 9007199254740992)"
    using fl_eval [of "- 1" "3 / 5"] by (simp add: fl_eval_simps)
  have m: "jmul (Fin (5404319552844595 / 9007199254740992)) (Fin 3600) = Fin (2160)"
    using fl_eval [of "11" "1215971899390033875 / 562949953421312"] by (simp add: fl_eval_simps)
  show ?thesis unfolding eventOffset_def
    by (simp add: d m floor_rat_divide_numeral del: jmul.simps jdiv.simps)
qed

lemma eventOffset_143: "eventOffset 220 143 = Fin 2340"
proof -
  have d: "jdiv (Fin 143) (Fin 220) = Fin (5854679515581645 / 9007199254740992)"
    using fl_eval [of "- 1" "13 / 20"] by (simp add: fl_eval_simps)
  have m: "jmul (Fin (5854679515581645 / 9007199254740992)) (Fin 3600) = Fin (2340)"
    using fl_eval [of "11" "1317302891005870125 / 562949953421312"] by (simp add: fl_eval_simps)
  show ?thesis unfolding eventOffset_def
    by (simp add: d m floor_rat_divide_numeral del: jmul.simps jdiv.simps)
qed

lemma eventOffset_154: "eventOffset 220 154 = Fin 2520"
proof -
  have d: "jdiv (Fin 154) (Fin 220) = Fin (3152519739159347 / 4503599627370496)"
    using fl_eval [of "- 1" "7 / 10"] by (simp add: fl_eval_simps)
  have m: "jmul (Fin (3152519739159347 / 4503599627370496)) (Fin 3600) = Fin (2520)"
    using fl_eval [of "11" "709316941310853075 / 281474976710656"] by (simp add: fl_eval_simps)
  show ?thesis unfolding eventOffset_def
    by (simp add: d m floor_rat_divide_numeral del: jmul.simps jdiv.simps)
qed

lemma eventOffset_165: "eventOffset 220 165 = Fin 2700"
proof -
  have d: "jdiv (Fin 165) (Fin 220) = Fin (3 / 4)"
    using fl_eval [of "- 1" "3 / 4"] by (simp add: fl_eval_simps)
  have m: "jmul (Fin (3 / 4)) (Fin 3600) = Fin (2700)"
    using fl_eval [of "11" "2700"] by (simp add: fl_eval_simps)
  show ?thesis unfolding eventOffset_def
    by (simp add: d m floor_rat_divide_numeral del: jmul.simps jdiv.simps)
qed

lemma eventOffset_176: "eventOffset 220 176 = Fin 2880"
proof -
  have d: "jdiv (Fin 176) (Fin 220) = Fin (3602879701896397 / 4503599627370496)"
    using fl_eval [of "- 1" "4 / 5"] by (simp add: fl_eval_simps)
  have m: "jmul (Fin (3602879701896397 / 4503599627370496)) (Fin 3600) = Fin (2880)"
    using fl_eval [of "11" "810647932926689325 / 281474976710656"] by (simp add: fl_eval_simps)
  show ?thesis unfolding eventOffset_def
    by (simp add: d m floor_rat_divide_numeral del: jmul.simps jdiv.simps)
qed

lemma eventOffset_187: "eventOffset 220 187 = Fin 3060"
proof -
  have d: "jdiv (Fin 187) (Fin 220) = Fin (7656119366529843 / 9007199254740992)"
    using fl_eval [of "- 1" "17 / 20"] by (simp add: fl_eval_simps)
  have m: "jmul (Fin (7656119366529843 / 9007199254740992)) (Fin 3600) = Fin (3060)"
    using fl_eval [of "11" "1722626857469214675 / 562949953421312"] by (simp add: fl_eval_simps)
  show ?thesis unfolding eventOffset_def
    by (simp add: d m floor_rat_divide_numeral del: jmul.simps jdiv.simps)
qed

lemma eventOffset_198: "eventOffset 220 198 = Fin 3240"
proof -
  have d: "jdiv (Fin 198) (Fin 220) = Fin (8106479329266893 / 9007199254740992)"
    using fl_eval [of "- 1" "9 / 10"] by (simp add: fl_eval_simps)
  have m: "jmul (Fin (8106479329266893 / 9007199254740992)) (Fin 3600) = Fin (3240)"
    using fl_eval [of "11" "1823957849085050925 / 562949953421312"] by (simp add: fl_eval_simps)
  show ?thesis unfolding eventOffset_def
    by (simp add: d m floor_rat_divide_numeral del: jmul.simps jdiv.simps)
qed

lemma eventOffset_209: "eventOffset 220 209 = Fin 3420"
proof -
  have d: "jdiv (Fin 209) (Fin 220) = Fin (4278419646001971 / 4503599627370496)"
    using fl_eval [of "- 1" "19 / 20"] by (simp add: fl_eval_simps)
  have m: "jmul (Fin (4278419646001971 / 4503599627370496)) (Fin 3600) = Fin (3420)"
    using fl_eval [of "11" "962644420350443475 / 281474976710656"] by (simp add: fl_eval_simps)
  show ?thesis unfolding eventOffset_def
    by (simp add: d m floor_rat_divide_numeral del: jmul.simps jdiv.simps)
qed

lemma eventOffset_multiple:
  assumes "i < 220" "11 dvd i"
  shows "eventOffset 220 i = Fin (of_nat (i * 3600 div 220))"
proof -
  from assms(2) obtain m where m: "i = 11 * m" by (auto simp: dvd_def)
  with assms(1) have "m < 20" by simp
  then have "m \<in> {0, 1, 2, 3, 4, 5, 6, 7, 8, 9, 10, 11, 12, 13, 14, 15, 16, 17, 18, 19}" by simp presburger
  then show ?thesis unfolding m
    by (elim insertE emptyE) (simp_all add: eventOffset_0 eventOffset_11 eventOffset_22 eventOffset_33 eventOffset_44 eventOffset_55 eventOffset_66 eventOffset_77 eventOffset_88 eventOffset_99 eventOffset_110 eventOffset_121 eventOffset_132 eventOffset_143 eventOffset_154 eventOffset_165 eventOffset_176 eventOffset_187 eventOffset_198 eventOffset_209)
qed

lemma eventOffset_220: "i < 220 \<Longrightarrow> eventOffset 220 i = Fin (of_nat (i * 3600 div 220))"
  using eventOffset_multiple [of i] eventOffset_between [of i] by blast

text \<open>The strings \<open>toHms\<close> and the ids are made of, and what \<open>hmsToSeconds\<close> reads back.\<close>

lemma digit_chars:
  "char_of (48 :: nat) = CHR ''0''" "char_of (49 :: nat) = CHR ''1''" "char_of (50 :: nat) = CHR ''2''"
  "char_of (51 :: nat) = CHR ''3''" "char_of (52 :: nat) = CHR ''4''" "char_of (53 :: nat) = CHR ''5''"
  "char_of (54 :: nat) = CHR ''6''" "char_of (55 :: nat) = CHR ''7''" "char_of (56 :: nat) = CHR ''8''"
  "char_of (57 :: nat) = CHR ''9''"
  by code_simp+

lemma fl_of_nat: "k < 2 ^ 53 \<Longrightarrow> fl (of_nat k) = Fin (of_nat k)"
  using fl_of_int [of "int k"] by simp

lemma digit_char: "d < 10 \<Longrightarrow> isDigit (char_of (48 + d)) \<and> digitVal (char_of (48 + d)) = d"
  by (simp add: isDigit_def digitVal_def)

lemma isDigit_not:
  "isDigit c \<Longrightarrow> \<not> isWhite c \<and> c \<noteq> CHR ''x'' \<and> c \<noteq> CHR ''X'' \<and> c \<noteq> CHR ''o'' \<and> c \<noteq> CHR ''O'' \<and>
     c \<noteq> CHR ''b'' \<and> c \<noteq> CHR ''B'' \<and> c \<noteq> CHR ''-'' \<and> c \<noteq> CHR ''+'' \<and> c \<noteq> CHR '':'' \<and> digitVal c < 10"
  by (auto simp: isDigit_def isWhite_def digitVal_def)

lemma StringToNumber_two_digits:
  assumes "isDigit c1" "isDigit c2"
  shows "StringToNumber [c1, c2] = Fin (of_nat (10 * digitVal c1 + digitVal c2))"
proof -
  note n1 = isDigit_not [OF assms(1)] and n2 = isDigit_not [OF assms(2)]
  have "10 * digitVal c1 + digitVal c2 < 2 ^ 53" using n1 n2 by simp
  then have f: "fl (of_nat (10 * digitVal c1 + digitVal c2)) = Fin (of_nat (10 * digitVal c1 + digitVal c2))"
    by (rule fl_of_nat)
  have d: "decimalLiteral [c1, c2] = Some (of_nat (10 * digitVal c1 + digitVal c2))"
    using assms by (simp add: decimalLiteral_def exponentPart_def natOfDigits_def pow10_def Let_def)
  have t: "trimJs [c1, c2] = [c1, c2]" using n1 n2 by (simp add: trimJs_def)
  show ?thesis unfolding StringToNumber_def t Let_def using n1 n2 f d by simp
qed

lemma hmsToSeconds_digits:
  assumes "isDigit h1" "isDigit h2" "isDigit m1" "isDigit m2" "isDigit s1" "isDigit s2"
  shows "hmsToSeconds [h1, h2, CHR '':'', m1, m2, CHR '':'', s1, s2] =
         Fin (of_nat ((10 * digitVal h1 + digitVal h2) * 3600 + (10 * digitVal m1 + digitVal m2) * 60 +
                      (10 * digitVal s1 + digitVal s2)))"
proof -
  note n = isDigit_not [OF assms(1)] isDigit_not [OF assms(2)] isDigit_not [OF assms(3)]
    isDigit_not [OF assms(4)] isDigit_not [OF assms(5)] isDigit_not [OF assms(6)]
  define h where "h = 10 * digitVal h1 + digitVal h2"
  define m where "m = 10 * digitVal m1 + digitVal m2"
  define s where "s = 10 * digitVal s1 + digitVal s2"
  have b: "h < 100" "m < 100" "s < 100" using n by (simp_all add: h_def m_def s_def)
  have sp: "split_on CHR '':'' [h1, h2, CHR '':'', m1, m2, CHR '':'', s1, s2] = [[h1, h2], [m1, m2], [s1, s2]]"
    using n by simp
  have nums: "map StringToNumber [[h1, h2], [m1, m2], [s1, s2]] = [Fin (of_nat h), Fin (of_nat m), Fin (of_nat s)]"
    using assms by (simp add: StringToNumber_two_digits h_def m_def s_def)
  have "h * 3600 < 2 ^ 53" using b by simp
  from fl_of_nat [OF this] have hm: "jmul (Fin (of_nat h)) (Fin 3600) = Fin (of_nat (h * 3600))" by simp
  have "m * 60 < 2 ^ 53" using b by simp
  from fl_of_nat [OF this] have mm: "jmul (Fin (of_nat m)) (Fin 60) = Fin (of_nat (m * 60))" by simp
  have "h * 3600 + m * 60 < 2 ^ 53" using b by simp
  from fl_of_nat [OF this]
  have a1: "jadd (Fin (of_nat (h * 3600))) (Fin (of_nat (m * 60))) = Fin (of_nat (h * 3600 + m * 60))"
    by simp
  have "h * 3600 + m * 60 + s < 2 ^ 53" using b by simp
  from fl_of_nat [OF this]
  have a2: "jadd (Fin (of_nat (h * 3600 + m * 60))) (Fin (of_nat s)) = Fin (of_nat (h * 3600 + m * 60 + s))"
    by simp
  have fl: "jfloor (Fin (of_nat (h * 3600 + m * 60 + s))) = Fin (of_nat (h * 3600 + m * 60 + s))"
    by simp
  have mx: "jmax (Fin 0) (Fin (of_nat (h * 3600 + m * 60 + s))) = Fin (of_nat (h * 3600 + m * 60 + s))"
    by simp
  show ?thesis
    unfolding hmsToSeconds_def sp nums h_def [symmetric] m_def [symmetric] s_def [symmetric]
    by (simp add: hm mm a1 a2 fl mx del: jmul.simps jadd.simps jfloor.simps jmax.simps of_nat_add of_nat_mult)
qed

lemma two_digits:
  assumes "k < 100"
  shows "padStart0 2 (showNat k) = [char_of (48 + k div 10), char_of (48 + k mod 10)]"
proof (cases "k < 10")
  case True
  then show ?thesis by (simp add: showNat.simps [of k] padStart0_def digit_chars(1))
next
  case False
  with assms have "k div 10 < 10" by simp
  with False show ?thesis by (simp add: showNat.simps [of k] showNat.simps [of "k div 10"] padStart0_def)
qed

lemma toHms_digits:
  assumes "n < 3600"
  shows "toHms n = [CHR ''0'', CHR ''0'', CHR '':'', char_of (48 + n div 60 div 10), char_of (48 + n div 60 mod 10),
                    CHR '':'', char_of (48 + n mod 60 div 10), char_of (48 + n mod 60 mod 10)]"
proof -
  have "n div 60 < 100" "n mod 60 < 100" "(0::nat) < 100" using assms by simp_all
  note two_digits [OF this(1)] two_digits [OF this(2)] two_digits [OF this(3)]
  then show ?thesis using assms by (simp add: toHms_def digit_chars(1))
qed

lemma hmsToSeconds_toHms:
  assumes "n < 3600"
  shows "hmsToSeconds (toHms n) = Fin (of_nat n)"
proof -
  have d: "n div 60 div 10 < 10" "n div 60 mod 10 < 10" "n mod 60 div 10 < 10" "n mod 60 mod 10 < 10" "(0::nat) < 10"
    using assms by simp_all
  note c = digit_char [OF d(1)] digit_char [OF d(2)] digit_char [OF d(3)] digit_char [OF d(4)]
  have z: "isDigit CHR ''0''" "digitVal CHR ''0'' = 0" by (simp_all add: isDigit_def digitVal_def)
  have "hmsToSeconds (toHms n) =
     Fin (of_nat ((10 * 0 + 0) * 3600 + (10 * (n div 60 div 10) + n div 60 mod 10) * 60 +
                      (10 * (n mod 60 div 10) + n mod 60 mod 10)))"
    unfolding toHms_digits [OF assms] using hmsToSeconds_digits [OF z(1) z(1), of "char_of (48 + n div 60 div 10)"
       "char_of (48 + n div 60 mod 10)" "char_of (48 + n mod 60 div 10)" "char_of (48 + n mod 60 mod 10)"] c z(2)
    by simp
  also have "(10 * 0 + 0) * 3600 + (10 * (n div 60 div 10) + n div 60 mod 10) * 60 +
                      (10 * (n mod 60 div 10) + n mod 60 mod 10) = n" by simp
  finally show ?thesis .
qed

lemma eventId_digits:
  assumes "i < 999"
  shows "eventId i = [CHR ''E'', CHR ''V'', CHR ''T'', CHR ''-'', CHR ''0'', char_of (48 + (i + 1) div 100),
                      char_of (48 + (i + 1) div 10 mod 10), char_of (48 + (i + 1) mod 10)]"
proof -
  define k where "k = i + 1"
  have k: "k < 1000" using assms by (simp add: k_def)
  have "padStart0 4 (showNat k) =
     [CHR ''0'', char_of (48 + k div 100), char_of (48 + k div 10 mod 10), char_of (48 + k mod 10)]"
  proof (cases "k < 10")
    case True
    then show ?thesis by (simp add: showNat.simps [of k] padStart0_def digit_chars(1) numeral_3_eq_3)
  next
    case False
    show ?thesis
    proof (cases "k < 100")
      case True
      with False have "k div 10 < 10" by simp
      with False True show ?thesis
        by (simp add: showNat.simps [of k] showNat.simps [of "k div 10"] padStart0_def digit_chars(1) numeral_2_eq_2)
    next
      case False
      with k have a: "\<not> k div 10 < 10" "k div 100 < 10" by simp_all
      have "k div 10 div 10 = k div 100" by (simp add: div_mult2_eq [symmetric])
      with False a show ?thesis
        by (simp add: showNat.simps [of k] showNat.simps [of "k div 10"] showNat.simps [of "k div 100"]
            padStart0_def)
    qed
  qed
  then show ?thesis by (simp add: eventId_def k_def)
qed

text \<open>
  Claim C8. The synthetic events are a function of the seed string alone, and every
  field of every event is determined. There are 220 events. The event at index \<open>i\<close> has
  the id \<open>EVT-\<close> and \<open>i + 1\<close> on four digits; its time is \<open>00:mm:ss\<close> for the whole number
  of seconds \<open>i * 3600 div 220\<close>, which is what the doubles of \<open>floor(i / 220 * 3600)\<close>
  compute, and \<open>hmsToSeconds\<close> reads that number back from it; its category is picked by
  draw \<open>2 i\<close> and its confidence is made from draw \<open>2 i + 1\<close> of the generator seeded with
  the hash of the seed string. Draw \<open>k\<close> is the output of \<open>mulberry32\<close> at the state
  \<open>seed + k * 0x6D2B79F5\<close>, a multiple of \<open>2^-32\<close> below 1, and the category of a draw is
  \<open>Small\<close>, \<open>Medium\<close>, \<open>Large\<close> or \<open>XL\<close> as the draw is at most the accumulated weight 0.22,
  0.6, 0.9099999999999999 or 0.9999999999999999, and \<open>Medium\<close> beyond. Two states of the
  dashboard with the same video name, completed and with no events from a file, have the
  same base events, whatever their other fields.
\<close>

theorem synthetic_events_are_determined_by_the_seed:
  "length (syntheticEvents seed) = 220 \<and>
   (\<forall>i<220.
      syntheticEvents seed ! i =
        \<lparr>id_ev = ''EVT-0'' @ [char_of (48 + (i + 1) div 100), char_of (48 + (i + 1) div 10 mod 10),
                               char_of (48 + (i + 1) mod 10)],
         time = ''00:'' @ [char_of (48 + i * 3600 div 220 div 60 div 10),
                           char_of (48 + i * 3600 div 220 div 60 mod 10)] @ '':'' @
                          [char_of (48 + i * 3600 div 220 mod 60 div 10),
                           char_of (48 + i * 3600 div 220 mod 60 mod 10)],
         size_ev = pickSize (draw (seedFromString seed) (2 * i)),
         confidence = drawConfidence (draw (seedFromString seed) (2 * i + 1)),
         source = ''Cutting Table 1'', timestamp = None\<rparr> \<and>
      eventOffset 220 i = Fin (of_nat (i * 3600 div 220)) \<and>
      id_ev (syntheticEvents seed ! i) = eventId i \<and>
      time (syntheticEvents seed ! i) = toHms (i * 3600 div 220) \<and>
      hmsToSeconds (time (syntheticEvents seed ! i)) = Fin (of_nat (i * 3600 div 220))) \<and>
   (\<forall>k. draw (seedFromString seed) k = snd (mulberry32 (seedFromString seed + k * 0x6D2B79F5)) \<and>
        (\<exists>m. m < 4294967296 \<and> draw (seedFromString seed) k = Fin (of_nat m / 4294967296))) \<and>
   (\<forall>x. pickSize (Fin x) =
      (if x \<le> 7926335344172073 / 36028797018963968 then Small
       else if x \<le> 5404319552844595 / 9007199254740992 then Medium
       else if x \<le> 4098275660907151 / 4503599627370496 then Large
       else if x \<le> 9007199254740991 / 9007199254740992 then XL else Medium)) \<and>
   (\<forall>st st'. completed st \<and> completed st' \<and>
        (eventsFromFile st = None \<or> eventsFromFile st = Some []) \<and>
        (eventsFromFile st' = None \<or> eventsFromFile st' = Some []) \<and>
        videoName st = videoName st' \<longrightarrow>
        baseEvents st = baseEvents st' \<and>
        baseEvents st =
          syntheticEvents ((if videoName st = [] then ''demo'' else videoName st) @ '':events''))"
proof -
  have len: "length (syntheticEvents seed) = 220"
    by (simp add: syntheticEvents_def genEvents_unfold)
  have nth: "syntheticEvents seed ! i =
        \<lparr>id_ev = ''EVT-0'' @ [char_of (48 + (i + 1) div 100), char_of (48 + (i + 1) div 10 mod 10),
                               char_of (48 + (i + 1) mod 10)],
         time = ''00:'' @ [char_of (48 + i * 3600 div 220 div 60 div 10),
                           char_of (48 + i * 3600 div 220 div 60 mod 10)] @ '':'' @
                          [char_of (48 + i * 3600 div 220 mod 60 div 10),
                           char_of (48 + i * 3600 div 220 mod 60 mod 10)],
         size_ev = pickSize (draw (seedFromString seed) (2 * i)),
         confidence = drawConfidence (draw (seedFromString seed) (2 * i + 1)),
         source = ''Cutting Table 1'', timestamp = None\<rparr> \<and>
      eventOffset 220 i = Fin (of_nat (i * 3600 div 220)) \<and>
      id_ev (syntheticEvents seed ! i) = eventId i \<and>
      time (syntheticEvents seed ! i) = toHms (i * 3600 div 220) \<and>
      hmsToSeconds (time (syntheticEvents seed ! i)) = Fin (of_nat (i * 3600 div 220))" if i: "i < 220" for i
  proof -
    define n where "n = i * 3600 div 220"
    have n: "n < 3600" using i by (simp add: n_def)
    have off: "eventOffset 220 i = Fin (of_nat n)" unfolding n_def using i by (rule eventOffset_220)
    then have nat: "natOfNum (eventOffset 220 i) = n" by (simp add: natOfNum_def)
    have st: "rngState (seedFromString seed) (2 * i + 1) = fst (mulberry32 (rngState (seedFromString seed) (2 * i)))"
      using rngState_add [of "seedFromString seed" "2 * i" 1] by simp
    have ev: "syntheticEvents seed ! i =
        \<lparr>id_ev = eventId i, time = toHms n,
         size_ev = pickSize (draw (seedFromString seed) (2 * i)),
         confidence = drawConfidence (draw (seedFromString seed) (2 * i + 1)),
         source = ''Cutting Table 1'', timestamp = None\<rparr>"
      using i st by (simp add: syntheticEvents_nth loopEvent_def draw_def nat)
    have "i < 999" using i by simp
    note idd = eventId_digits [OF this]
    note tmd = toHms_digits [OF n]
    have sec: "hmsToSeconds (toHms n) = Fin (of_nat n)" using n by (rule hmsToSeconds_toHms)
    have e1: "syntheticEvents seed ! i =
        \<lparr>id_ev = ''EVT-0'' @ [char_of (48 + (i + 1) div 100), char_of (48 + (i + 1) div 10 mod 10),
                               char_of (48 + (i + 1) mod 10)],
         time = ''00:'' @ [char_of (48 + n div 60 div 10), char_of (48 + n div 60 mod 10)] @ '':'' @
                          [char_of (48 + n mod 60 div 10), char_of (48 + n mod 60 mod 10)],
         size_ev = pickSize (draw (seedFromString seed) (2 * i)),
         confidence = drawConfidence (draw (seedFromString seed) (2 * i + 1)),
         source = ''Cutting Table 1'', timestamp = None\<rparr>"
      unfolding ev idd tmd by simp
    have e3: "id_ev (syntheticEvents seed ! i) = eventId i" by (simp add: ev)
    have e4: "time (syntheticEvents seed ! i) = toHms n" by (simp add: ev)
    have e5: "hmsToSeconds (time (syntheticEvents seed ! i)) = Fin (of_nat n)" by (simp only: e4 sec)
    show ?thesis unfolding n_def [symmetric]
      by (intro conjI) (rule e1, rule off, rule e3, rule e4, rule e5)
  qed
  have dr: "draw (seedFromString seed) k = snd (mulberry32 (seedFromString seed + k * 0x6D2B79F5)) \<and>
        (\<exists>m. m < 4294967296 \<and> draw (seedFromString seed) k = Fin (of_nat m / 4294967296))" for k
    using draw_range [of "seedFromString seed" k] by (simp add: draw_def rngState_closed)
  have base: "baseEvents st = baseEvents st' \<and>
        baseEvents st =
          syntheticEvents ((if videoName st = [] then ''demo'' else videoName st) @ '':events'')"
    if "completed st \<and> completed st' \<and>
        (eventsFromFile st = None \<or> eventsFromFile st = Some []) \<and>
        (eventsFromFile st' = None \<or> eventsFromFile st' = Some []) \<and>
        videoName st = videoName st'" for st st'
    using that baseEvents_synthetic [of st] baseEvents_synthetic [of st'] by simp
  have nth_all: "\<forall>i<220.
      syntheticEvents seed ! i =
        \<lparr>id_ev = ''EVT-0'' @ [char_of (48 + (i + 1) div 100), char_of (48 + (i + 1) div 10 mod 10),
                               char_of (48 + (i + 1) mod 10)],
         time = ''00:'' @ [char_of (48 + i * 3600 div 220 div 60 div 10),
                           char_of (48 + i * 3600 div 220 div 60 mod 10)] @ '':'' @
                          [char_of (48 + i * 3600 div 220 mod 60 div 10),
                           char_of (48 + i * 3600 div 220 mod 60 mod 10)],
         size_ev = pickSize (draw (seedFromString seed) (2 * i)),
         confidence = drawConfidence (draw (seedFromString seed) (2 * i + 1)),
         source = ''Cutting Table 1'', timestamp = None\<rparr> \<and>
      eventOffset 220 i = Fin (of_nat (i * 3600 div 220)) \<and>
      id_ev (syntheticEvents seed ! i) = eventId i \<and>
      time (syntheticEvents seed ! i) = toHms (i * 3600 div 220) \<and>
      hmsToSeconds (time (syntheticEvents seed ! i)) = Fin (of_nat (i * 3600 div 220))"
    using nth by blast
  have dr_all: "\<forall>k. draw (seedFromString seed) k = snd (mulberry32 (seedFromString seed + k * 0x6D2B79F5)) \<and>
        (\<exists>m. m < 4294967296 \<and> draw (seedFromString seed) k = Fin (of_nat m / 4294967296))"
    using dr by blast
  have pick_all: "\<forall>x. pickSize (Fin x) =
      (if x \<le> 7926335344172073 / 36028797018963968 then Small
       else if x \<le> 5404319552844595 / 9007199254740992 then Medium
       else if x \<le> 4098275660907151 / 4503599627370496 then Large
       else if x \<le> 9007199254740991 / 9007199254740992 then XL else Medium)"
    by (rule allI) (rule pickSize_thresholds)
  have base_all: "\<forall>st st'. completed st \<and> completed st' \<and>
        (eventsFromFile st = None \<or> eventsFromFile st = Some []) \<and>
        (eventsFromFile st' = None \<or> eventsFromFile st' = Some []) \<and>
        videoName st = videoName st' \<longrightarrow>
        baseEvents st = baseEvents st' \<and>
        baseEvents st =
          syntheticEvents ((if videoName st = [] then ''demo'' else videoName st) @ '':events'')"
    using base by blast
  show ?thesis
    by (intro conjI) (rule len, rule nth_all, rule dr_all, rule pick_all, rule base_all)
qed

text \<open>The first, the second and the last event for the seed \<open>demo:events\<close>, two events
  for the seed \<open>cutting-table.mp4:events\<close>, and two states of the dashboard that differ in
  everything the generator does not read.\<close>

lemma fl_27_100: "fl (27 / 100) = Fin (607985949695017 / 2251799813685248)"
  using fl_eval [of "- 2" "27 / 100"] by (simp add: fl_eval_simps)

lemma fl_72_100: "fl (72 / 100) = Fin (3242591731706757 / 4503599627370496)"
  using fl_eval [of "- 1" "18 / 25"] by (simp add: fl_eval_simps)

lemma conf_mul: "jmul (Fin (2138238055 / 2147483648)) (Fin (607985949695017 / 2251799813685248)) = Fin (4842947030600909 / 18014398509481984)"
  using fl_eval [of "- 2" "1300018694543200993271935 / 4835703278458516698824704"] by (simp add: fl_eval_simps)

lemma conf_add: "jadd (Fin (3242591731706757 / 4503599627370496)) (Fin (4842947030600909 / 18014398509481984)) = Fin (556666061169623 / 562949953421312)"
  using fl_eval [of "- 1" "17813313957427937 / 18014398509481984"] by (simp add: fl_eval_simps)

lemma conf_scale: "jmul (Fin (556666061169623 / 562949953421312)) (Fin 1000) = Fin (8697907205775359 / 8796093022208)"
  using fl_eval [of "9" "69583257646202875 / 70368744177664"] by (simp add: fl_eval_simps)

lemma conf_div: "jdiv (Fin 989) (Fin 1000) = Fin (8908120062938841 / 9007199254740992)"
  using fl_eval [of "- 1" "989 / 1000"] by (simp add: fl_eval_simps)

lemma seed_demo: "seedFromString ''demo:events'' = 2385475645"
  by (simp add: seedFromString_def imul_def)

lemma draw_demo_0: "draw 2385475645 0 = Fin (3564943419 / 4294967296)"
  by (simp add: draw_def mulberry32_def imul_def Let_def)

lemma draw_demo_1: "draw 2385475645 1 = Fin (2138238055 / 2147483648)"
  by (simp add: draw_def mulberry32_fst) (simp add: mulberry32_def imul_def Let_def)

lemma drawConfidence_demo_0:
  "drawConfidence (Fin (2138238055 / 2147483648)) = Fin (8908120062938841 / 9007199254740992)"
  unfolding drawConfidence_def Let_def fl_27_100 fl_72_100 conf_mul conf_add
  by (simp add: clamp_def conf_scale conf_div floor_rat_divide_numeral del: jmul.simps jdiv.simps)

lemma draw_demo_2: "draw 2385475645 2 = Fin (782427073 / 1073741824)"
  by (simp add: draw_def rngState_closed mulberry32_def imul_def Let_def)

lemma draw_demo_3: "draw 2385475645 3 = Fin (652030203 / 2147483648)"
  by (simp add: draw_def rngState_closed mulberry32_def imul_def Let_def)

lemma conf_mul_1: "jmul (Fin (652030203 / 2147483648)) (Fin (607985949695017 / 2251799813685248)) = Fin (2953597919648809 / 36028797018963968)"
  using fl_eval [of "- 4" "396425202200789722598451 / 4835703278458516698824704"] by (simp add: fl_eval_simps)

lemma conf_add_1: "jadd (Fin (3242591731706757 / 4503599627370496)) (Fin (2953597919648809 / 36028797018963968)) = Fin (1805895735831429 / 2251799813685248)"
  using fl_eval [of "- 1" "28894331773302865 / 36028797018963968"] by (simp add: fl_eval_simps)

lemma conf_scale_1: "jmul (Fin (1805895735831429 / 2251799813685248)) (Fin 1000) = Fin (861118190685 / 1073741824)"
  using fl_eval [of "9" "225736966978928625 / 281474976710656"] by (simp add: fl_eval_simps)

lemma conf_div_1: "jdiv (Fin 802) (Fin 1000) = Fin (1805943450575569 / 2251799813685248)"
  using fl_eval [of "- 1" "401 / 500"] by (simp add: fl_eval_simps)

lemma drawConfidence_demo_1:
  "drawConfidence (Fin (652030203 / 2147483648)) = Fin (1805943450575569 / 2251799813685248)"
  unfolding drawConfidence_def Let_def fl_27_100 fl_72_100 conf_mul_1 conf_add_1
  by (simp add: clamp_def conf_scale_1 conf_div_1 floor_rat_divide_numeral del: jmul.simps jdiv.simps)

lemma draw_demo_438: "draw 2385475645 438 = Fin (1753252745 / 4294967296)"
  by (simp add: draw_def rngState_closed mulberry32_def imul_def Let_def)

lemma draw_demo_439: "draw 2385475645 439 = Fin (258486667 / 1073741824)"
  by (simp add: draw_def rngState_closed mulberry32_def imul_def Let_def)

lemma conf_mul_219: "jmul (Fin (258486667 / 1073741824)) (Fin (607985949695017 / 2251799813685248)) = Fin (2341810788504699 / 36028797018963968)"
  using fl_eval [of "- 4" "157156261719494610838339 / 2417851639229258349412352"] by (simp add: fl_eval_simps)

lemma conf_add_219: "jadd (Fin (3242591731706757 / 4503599627370496)) (Fin (2341810788504699 / 36028797018963968)) = Fin (7070636160539689 / 9007199254740992)"
  using fl_eval [of "- 1" "28282544642158755 / 36028797018963968"] by (simp add: fl_eval_simps)

lemma conf_scale_219: "jmul (Fin (7070636160539689 / 9007199254740992)) (Fin 1000) = Fin (421442756685 / 536870912)"
  using fl_eval [of "9" "883829520067461125 / 1125899906842624"] by (simp add: fl_eval_simps)

lemma conf_div_219: "jdiv (Fin 785) (Fin 1000) = Fin (7070651414971679 / 9007199254740992)"
  using fl_eval [of "- 1" "157 / 200"] by (simp add: fl_eval_simps)

lemma drawConfidence_demo_219:
  "drawConfidence (Fin (258486667 / 1073741824)) = Fin (7070651414971679 / 9007199254740992)"
  unfolding drawConfidence_def Let_def fl_27_100 fl_72_100 conf_mul_219 conf_add_219
  by (simp add: clamp_def conf_scale_219 conf_div_219 floor_rat_divide_numeral del: jmul.simps jdiv.simps)

lemma seed_video: "seedFromString ''cutting-table.mp4:events'' = 2076581430"
  by (simp add: seedFromString_def imul_def)

lemma draw_video_0: "draw 2076581430 0 = Fin (176987573 / 268435456)"
  by (simp add: draw_def rngState_closed mulberry32_def imul_def Let_def)

lemma draw_video_1: "draw 2076581430 1 = Fin (260700735 / 2147483648)"
  by (simp add: draw_def rngState_closed mulberry32_def imul_def Let_def)

lemma conf_mul_v0: "jmul (Fin (260700735 / 2147483648)) (Fin (607985949695017 / 2251799813685248)) = Fin (4723739145850061 / 144115188075855872)"
  using fl_eval [of "- 5" "158502383955163957737495 / 4835703278458516698824704"] by (simp add: fl_eval_simps)

lemma conf_add_v0: "jadd (Fin (3242591731706757 / 4503599627370496)) (Fin (4723739145850061 / 144115188075855872)) = Fin (6780417160029143 / 9007199254740992)"
  using fl_eval [of "- 1" "108486674560466285 / 144115188075855872"] by (simp add: fl_eval_simps)

lemma conf_scale_v0: "jmul (Fin (6780417160029143 / 9007199254740992)) (Fin 1000) = Fin (808288712505 / 1073741824)"
  using fl_eval [of "9" "847552145003642875 / 1125899906842624"] by (simp add: fl_eval_simps)

lemma conf_div_v0: "jdiv (Fin 753) (Fin 1000) = Fin (6782421038819967 / 9007199254740992)"
  using fl_eval [of "- 1" "753 / 1000"] by (simp add: fl_eval_simps)

lemma drawConfidence_video_0:
  "drawConfidence (Fin (260700735 / 2147483648)) = Fin (6782421038819967 / 9007199254740992)"
  unfolding drawConfidence_def Let_def fl_27_100 fl_72_100 conf_mul_v0 conf_add_v0
  by (simp add: clamp_def conf_scale_v0 conf_div_v0 floor_rat_divide_numeral del: jmul.simps jdiv.simps)

lemma draw_video_200: "draw 2076581430 200 = Fin (108251071 / 268435456)"
  by (simp add: draw_def rngState_closed mulberry32_def imul_def Let_def)

lemma draw_video_201: "draw 2076581430 201 = Fin (95176855 / 1073741824)"
  by (simp add: draw_def rngState_closed mulberry32_def imul_def Let_def)

lemma conf_mul_v100: "jmul (Fin (95176855 / 1073741824)) (Fin (607985949695017 / 2251799813685248)) = Fin (3449093733797069 / 144115188075855872)"
  using fl_eval [of "- 6" "57866190576159927231535 / 2417851639229258349412352"] by (simp add: fl_eval_simps)

lemma conf_add_v100: "jadd (Fin (3242591731706757 / 4503599627370496)) (Fin (3449093733797069 / 144115188075855872)) = Fin (6700751821775831 / 9007199254740992)"
  using fl_eval [of "- 1" "107212029148413293 / 144115188075855872"] by (simp add: fl_eval_simps)

lemma conf_scale_v100: "jmul (Fin (6700751821775831 / 9007199254740992)) (Fin 1000) = Fin (399395932065 / 536870912)"
  using fl_eval [of "9" "837593977721978875 / 1125899906842624"] by (simp add: fl_eval_simps)

lemma conf_div_v100: "jdiv (Fin 744) (Fin 1000) = Fin (3350678122763649 / 4503599627370496)"
  using fl_eval [of "- 1" "93 / 125"] by (simp add: fl_eval_simps)

lemma drawConfidence_video_100:
  "drawConfidence (Fin (95176855 / 1073741824)) = Fin (3350678122763649 / 4503599627370496)"
  unfolding drawConfidence_def Let_def fl_27_100 fl_72_100 conf_mul_v100 conf_add_v100
  by (simp add: clamp_def conf_scale_v100 conf_div_v100 floor_rat_divide_numeral del: jmul.simps jdiv.simps)

theorem synthetic_events_are_determined_by_the_seed_witness:
  "syntheticEvents ''demo:events'' ! 0 =
     \<lparr>id_ev = ''EVT-0001'', time = ''00:00:00'', size_ev = Large,
      confidence = Fin (8908120062938841 / 9007199254740992), source = ''Cutting Table 1'', timestamp = None\<rparr> \<and>
   syntheticEvents ''demo:events'' ! 1 =
     \<lparr>id_ev = ''EVT-0002'', time = ''00:00:16'', size_ev = Large,
      confidence = Fin (1805943450575569 / 2251799813685248), source = ''Cutting Table 1'', timestamp = None\<rparr> \<and>
   syntheticEvents ''demo:events'' ! 219 =
     \<lparr>id_ev = ''EVT-0220'', time = ''00:59:43'', size_ev = Medium,
      confidence = Fin (7070651414971679 / 9007199254740992), source = ''Cutting Table 1'', timestamp = None\<rparr> \<and>
   syntheticEvents ''cutting-table.mp4:events'' ! 0 =
     \<lparr>id_ev = ''EVT-0001'', time = ''00:00:00'', size_ev = Large,
      confidence = Fin (6782421038819967 / 9007199254740992), source = ''Cutting Table 1'', timestamp = None\<rparr> \<and>
   syntheticEvents ''cutting-table.mp4:events'' ! 100 =
     \<lparr>id_ev = ''EVT-0101'', time = ''00:27:16'', size_ev = Medium,
      confidence = Fin (3350678122763649 / 4503599627370496), source = ''Cutting Table 1'', timestamp = None\<rparr> \<and>
   eventOffset 220 219 = Fin 3583 \<and>
   hmsToSeconds (time (syntheticEvents ''demo:events'' ! 219)) = Fin 3583 \<and>
   completed firstRun \<and> completed secondRun \<and> eventsFromFile firstRun = Some [] \<and>
   eventsFromFile secondRun = None \<and> videoName firstRun = videoName secondRun \<and>
   baseEvents firstRun = baseEvents secondRun \<and>
   baseEvents firstRun = syntheticEvents ''cutting-table.mp4:events''"
proof -
  note inst = synthetic_events_are_determined_by_the_seed [of "''demo:events''"]
  note nth = inst [THEN conjunct2, THEN conjunct1, rule_format]
  note pick = inst [THEN conjunct2, THEN conjunct2, THEN conjunct2, THEN conjunct1, rule_format]
  note base = inst [THEN conjunct2, THEN conjunct2, THEN conjunct2, THEN conjunct2, rule_format,
    of firstRun secondRun]
  note vid = synthetic_events_are_determined_by_the_seed [of "''cutting-table.mp4:events''",
    THEN conjunct2, THEN conjunct1, rule_format]
  have p0: "pickSize (Fin (3564943419 / 4294967296)) = Large"
    and p1: "pickSize (Fin (782427073 / 1073741824)) = Large"
    and p219: "pickSize (Fin (1753252745 / 4294967296)) = Medium"
    and q0: "pickSize (Fin (176987573 / 268435456)) = Large"
    and q100: "pickSize (Fin (108251071 / 268435456)) = Medium"
    by (simp_all add: pick)
  have e0: "syntheticEvents ''demo:events'' ! 0 =
     \<lparr>id_ev = ''EVT-0001'', time = ''00:00:00'', size_ev = Large,
      confidence = Fin (8908120062938841 / 9007199254740992), source = ''Cutting Table 1'', timestamp = None\<rparr>"
    using nth [of 0, THEN conjunct1]
    by (simp add: seed_demo draw_demo_0 draw_demo_1 [simplified] p0 drawConfidence_demo_0 digit_chars)
  have e1: "syntheticEvents ''demo:events'' ! 1 =
     \<lparr>id_ev = ''EVT-0002'', time = ''00:00:16'', size_ev = Large,
      confidence = Fin (1805943450575569 / 2251799813685248), source = ''Cutting Table 1'', timestamp = None\<rparr>"
    using nth [of 1, THEN conjunct1]
    by (simp add: seed_demo draw_demo_2 draw_demo_3 p1 drawConfidence_demo_1 digit_chars)
  have e219: "syntheticEvents ''demo:events'' ! 219 =
     \<lparr>id_ev = ''EVT-0220'', time = ''00:59:43'', size_ev = Medium,
      confidence = Fin (7070651414971679 / 9007199254740992), source = ''Cutting Table 1'', timestamp = None\<rparr>"
    using nth [of 219, THEN conjunct1]
    by (simp add: seed_demo draw_demo_438 draw_demo_439 p219 drawConfidence_demo_219 digit_chars)
  have f0: "syntheticEvents ''cutting-table.mp4:events'' ! 0 =
     \<lparr>id_ev = ''EVT-0001'', time = ''00:00:00'', size_ev = Large,
      confidence = Fin (6782421038819967 / 9007199254740992), source = ''Cutting Table 1'', timestamp = None\<rparr>"
    using vid [of 0, THEN conjunct1]
    by (simp add: seed_video draw_video_0 draw_video_1 [simplified] q0 drawConfidence_video_0 digit_chars)
  have f100: "syntheticEvents ''cutting-table.mp4:events'' ! 100 =
     \<lparr>id_ev = ''EVT-0101'', time = ''00:27:16'', size_ev = Medium,
      confidence = Fin (3350678122763649 / 4503599627370496), source = ''Cutting Table 1'', timestamp = None\<rparr>"
    using vid [of 100, THEN conjunct1]
    by (simp add: seed_video draw_video_200 draw_video_201 q100 drawConfidence_video_100 digit_chars)
  have o219: "eventOffset 220 219 = Fin 3583"
    using nth [of 219, THEN conjunct2, THEN conjunct1] by simp
  have h219: "hmsToSeconds (time (syntheticEvents ''demo:events'' ! 219)) = Fin 3583"
    using nth [of 219, THEN conjunct2, THEN conjunct2, THEN conjunct2, THEN conjunct2] by simp
  have c1: "completed firstRun" and c2: "completed secondRun"
    and f1: "eventsFromFile firstRun = Some []" and f2: "eventsFromFile secondRun = None"
    and v: "videoName firstRun = videoName secondRun"
    and v1: "videoName firstRun = ''cutting-table.mp4''"
    by (simp_all add: firstRun_def secondRun_def sampleDashboard_def)
  have pre: "completed firstRun \<and> completed secondRun \<and>
        (eventsFromFile firstRun = None \<or> eventsFromFile firstRun = Some []) \<and>
        (eventsFromFile secondRun = None \<or> eventsFromFile secondRun = Some []) \<and>
        videoName firstRun = videoName secondRun"
    using c1 c2 f1 f2 v by simp
  have b: "baseEvents firstRun = baseEvents secondRun" using base [OF pre] by (rule conjunct1)
  have s: "baseEvents firstRun = syntheticEvents ''cutting-table.mp4:events''"
    using base [OF pre, THEN conjunct2] by (simp add: v1)
  show ?thesis
    by (intro conjI) (rule e0, rule e1, rule e219, rule f0, rule f100, rule o219, rule h219, rule c1,
      rule c2, rule f1, rule f2, rule v, rule b, rule s)
qed

end
